theory Spec2Isabelle
  imports Main "HOL-Library.Word"
begin

unbundle bit_operations_syntax

section \<open>Integer types of the map\<close>

text \<open>
  \<^verbatim>\<open>types.h\<close> declares \<^verbatim>\<open>depth_t = uint8_t\<close>. The header \<^verbatim>\<open>key.h\<close>, which declares
  \<^verbatim>\<open>code_t\<close> and \<^verbatim>\<open>key_t\<close>, is not among the sources; \<^verbatim>\<open>code.h\<close> documents the code as
  \<^verbatim>\<open>uint64_t\<close> and masks a key component to 21 bits, so \<^verbatim>\<open>code_t\<close> is a 64-bit and
  \<^verbatim>\<open>key_t\<close> a 32-bit unsigned word here. An index is a slot number \<open>0..7\<close>.

  A C++ shift of a 64-bit word by 64 or more positions is undefined. \<^verbatim>\<open>Code::index\<close>, whose
  shift count the walks over the tree take from the depth of the map, returns no value
  in the model when its shift count reaches 64, and so does every walk that calls it
  there. The other shifts are the total \<^const>\<open>push_bit\<close> and \<^const>\<open>drop_bit\<close>; the
  theorems about them bound the depth so that every shift count stays below 64.
\<close>

type_synonym code_t = "64 word"
type_synonym key_t = "32 word"
type_synonym depth_t = "8 word"
type_synonym index_t = nat

section \<open>Key\<close>

text \<open>
  Modelled from the spec: the class \<^verbatim>\<open>Key\<close> of \<^verbatim>\<open>key.h\<close> (not among the sources). The
  spec describes a key as a triple of unsigned lattice coordinates at a depth \<open>d\<close>, each
  coordinate normalised so that its lowest \<open>d\<close> bits are zero.
\<close>

record Key =
  key_x :: key_t
  key_y :: key_t
  key_z :: key_t
  key_depth :: depth_t

definition Key_make :: "key_t \<Rightarrow> key_t \<Rightarrow> key_t \<Rightarrow> depth_t \<Rightarrow> Key" where
  "Key_make x y z d =
     \<lparr> key_x = push_bit (unat d) (drop_bit (unat d) x),
       key_y = push_bit (unat d) (drop_bit (unat d) y),
       key_z = push_bit (unat d) (drop_bit (unat d) z),
       key_depth = d \<rparr>"

section \<open>Code (code.h)\<close>

text \<open>A code is the packed 64-bit member \<^verbatim>\<open>code_\<close>: the depth in bits 0..4, the Morton code above.\<close>

type_synonym Code = code_t

text \<open>\<^verbatim>\<open>Code(code_t code, depth_t depth)\<close>\<close>

definition Code_make :: "code_t \<Rightarrow> depth_t \<Rightarrow> Code" where
  "Code_make code depth =
     push_bit (3 * unat depth + 5) (drop_bit (3 * unat depth) code) OR ucast depth"

definition Code_code :: "Code \<Rightarrow> code_t" where
  "Code_code c = drop_bit 5 c"

definition Code_depth :: "Code \<Rightarrow> depth_t" where
  "Code_depth c = ucast (c AND 0x1F)"

text \<open>The portable branch of \<^verbatim>\<open>splitBy3\<close> and \<^verbatim>\<open>get3Bits\<close> (compiled without BMI2).\<close>

definition splitBy3 :: "key_t \<Rightarrow> code_t" where
  "splitBy3 a =
     (let code = (ucast a :: code_t) AND 0x1fffff;
          code = (code OR push_bit 32 code) AND 0x1f00000000ffff;
          code = (code OR push_bit 16 code) AND 0x1f0000ff0000ff;
          code = (code OR push_bit 8 code) AND 0x100f00f00f00f00f;
          code = (code OR push_bit 4 code) AND 0x10c30c30c30c30c3;
          code = (code OR push_bit 2 code) AND 0x1249249249249249
      in code)"

definition get3Bits :: "code_t \<Rightarrow> key_t" where
  "get3Bits code =
     (let a = code AND 0x1249249249249249;
          a = (a XOR drop_bit 2 a) AND 0x10c30c30c30c30c3;
          a = (a XOR drop_bit 4 a) AND 0x100f00f00f00f00f;
          a = (a XOR drop_bit 8 a) AND 0x1f0000ff0000ff;
          a = (a XOR drop_bit 16 a) AND 0x1f00000000ffff;
          a = (a XOR drop_bit 32 a) AND 0x1fffff
      in ucast a)"

text \<open>
  The BMI2 branch calls the intrinsics \<^verbatim>\<open>_pdep_u64\<close> and \<^verbatim>\<open>_pext_u64\<close>. They are modelled by
  the loop of the instruction's definition (\<open>m\<close> runs over the bit positions, \<open>k\<close> counts the
  set bits of the mask seen so far): \<^verbatim>\<open>pdep\<close> moves the next low bit of the source
  to each set position of the mask, \<^verbatim>\<open>pext\<close> gathers the bits at the set positions of the
  mask into the low bits of the result.
\<close>

function pdep_loop :: "code_t \<Rightarrow> code_t \<Rightarrow> nat \<Rightarrow> nat \<Rightarrow> code_t \<Rightarrow> code_t" where
  "pdep_loop tmp msk m k dest =
     (if m < 64 then
        (if bit msk m then pdep_loop tmp msk (m + 1) (k + 1) (dest OR push_bit m (of_bool (bit tmp k)))
         else pdep_loop tmp msk (m + 1) k dest)
      else dest)"
  by pat_completeness auto
termination
  by (relation "measure (\<lambda>(tmp, msk, m, k, dest). 64 - m)") auto

definition pdep_u64 :: "code_t \<Rightarrow> code_t \<Rightarrow> code_t" where
  "pdep_u64 tmp msk = pdep_loop tmp msk 0 0 0"

function pext_loop :: "code_t \<Rightarrow> code_t \<Rightarrow> nat \<Rightarrow> nat \<Rightarrow> code_t \<Rightarrow> code_t" where
  "pext_loop tmp msk m k dest =
     (if m < 64 then
        (if bit msk m then pext_loop tmp msk (m + 1) (k + 1) (dest OR push_bit k (of_bool (bit tmp m)))
         else pext_loop tmp msk (m + 1) k dest)
      else dest)"
  by pat_completeness auto
termination
  by (relation "measure (\<lambda>(tmp, msk, m, k, dest). 64 - m)") auto

definition pext_u64 :: "code_t \<Rightarrow> code_t \<Rightarrow> code_t" where
  "pext_u64 tmp msk = pext_loop tmp msk 0 0 0"

definition splitBy3_bmi2 :: "key_t \<Rightarrow> code_t" where
  "splitBy3_bmi2 a = pdep_u64 (ucast a) 0x9249249249249249"

definition get3Bits_bmi2 :: "code_t \<Rightarrow> key_t" where
  "get3Bits_bmi2 code = ucast (pext_u64 code 0x9249249249249249)"

text \<open>\<^verbatim>\<open>static code_t toCode(Key key)\<close>, portable branch.\<close>

definition Code_toCode :: "Key \<Rightarrow> code_t" where
  "Code_toCode key =
     splitBy3 (key_x key) OR push_bit 1 (splitBy3 (key_y key)) OR push_bit 2 (splitBy3 (key_z key))"

text \<open>\<^verbatim>\<open>Code(Key key)\<close>\<close>

definition Code_of_Key :: "Key \<Rightarrow> Code" where
  "Code_of_Key key = push_bit 5 (Code_toCode key) OR ucast (key_depth key)"

text \<open>\<^verbatim>\<open>key_t toKey(std::size_t index) const\<close>\<close>

definition Code_toKey :: "Code \<Rightarrow> nat \<Rightarrow> key_t" where
  "Code_toKey c idx = get3Bits (drop_bit (idx + 5) c)"

text \<open>\<^verbatim>\<open>operator Key() const\<close>, portable branch.\<close>

definition Key_of_Code :: "Code \<Rightarrow> Key" where
  "Key_of_Code c = Key_make (Code_toKey c 0) (Code_toKey c 1) (Code_toKey c 2) (Code_depth c)"

text \<open>
  \<^verbatim>\<open>index_t index(depth_t depth) const\<close>: the slot at a depth. The shift count is the
  \<^verbatim>\<open>int\<close> \<open>3 * depth + 5\<close>; from depth 20 on it is 65 or more and the shift is undefined.
\<close>

definition Code_index :: "Code \<Rightarrow> depth_t \<Rightarrow> index_t option" where
  "Code_index c d =
     (if 3 * unat d + 5 < 64 then Some (unat (drop_bit (3 * unat d + 5) c AND 0x7)) else None)"

text \<open>
  The slot of a code at a depth in the words of the spec, to compare \<^const>\<open>Code_index\<close>
  with: "three bits extracted from position \<open>5 + 3d\<close> giving the child slot \<open>0..7\<close>", read
  on the number that the packed code is.
\<close>

definition spec_index :: "Code \<Rightarrow> nat \<Rightarrow> index_t" where
  "spec_index c d = unat c div 2 ^ (5 + 3 * d) mod 8"

definition Code_toDepth :: "Code \<Rightarrow> depth_t \<Rightarrow> Code" where
  "Code_toDepth c d = Code_make (drop_bit 5 c) d"

text \<open>\<^verbatim>\<open>Code parent(depth_t parent_depth) const\<close>; the source asserts \<open>parent_depth \<ge> depth()\<close>.\<close>

definition Code_parent :: "Code \<Rightarrow> depth_t \<Rightarrow> Code" where
  "Code_parent c parent_depth = Code_make (drop_bit 5 c) parent_depth"

text \<open>\<^verbatim>\<open>Code child(std::size_t index) const\<close>: at depth 0 the code itself is returned.\<close>

definition Code_child :: "Code \<Rightarrow> 64 word \<Rightarrow> Code" where
  "Code_child c idx =
     (let d = Code_depth c in
      if 0 = d then c
      else let cd = d - 1
           in Code_make (drop_bit 5 c + push_bit (3 * unat cd) idx) cd)"

text \<open>\<^verbatim>\<open>Code sibling(std::size_t index) const\<close>\<close>

definition Code_sibling :: "Code \<Rightarrow> 64 word \<Rightarrow> Code" where
  "Code_sibling c idx =
     (let d = Code_depth c;
          sc = push_bit (3 * (unat d + 1)) (drop_bit (5 + 3 * (unat d + 1)) c)
      in Code_make (sc + push_bit (3 * unat d) idx) d)"

text \<open>
  A code specified at depth \<open>d\<close> has its low \<open>3 * d\<close> interleaved bits zero: the constructor
  \<^const>\<open>Code_make\<close> shifts them out, and a normalised key has none.
\<close>

definition normalised :: "Code \<Rightarrow> bool" where
  "normalised c \<longleftrightarrow> take_bit (3 * unat (Code_depth c)) (Code_code c) = 0"

section \<open>Octree nodes (octree\_base.h)\<close>

text \<open>
  Modelled from the spec: the node types of \<^verbatim>\<open>octree_node.h\<close> (not among the sources), as
  \<^verbatim>\<open>octree_base.h\<close> uses them. A node is a block of eight sibling slots. A leaf node carries
  the payload of its slots and the bit field \<^verbatim>\<open>modified\<close>; an inner node carries in addition
  the bit field \<^verbatim>\<open>leaf\<close> and one pointer to a block of eight child nodes, child \<open>i\<close> holding
  the eight children of slot \<open>i\<close>. The block is a leaf block below depth 1 and an inner
  block otherwise (a union of two pointers in the source); the pointer is null (\<open>None\<close>)
  until a slot is split. \<^verbatim>\<open>IndexField\<close> is a field of eight bits.
\<close>

type_synonym IndexField = "8 word"

datatype 'a OctreeNode =
    LeafNode (data: "'a list") (modified: IndexField)
  | InnerNode (data: "'a list") (modified: IndexField) (leaf: IndexField)
      (children: "'a OctreeNode list option")

text \<open>
  The payload hooks of the derived map. \<open>blank\<close> is the payload of a value-initialised node,
  \<open>aggregate\<close> is \<^verbatim>\<open>derived().updateNode\<close> (the payload of a slot computed from the payload of
  its child node) and \<open>collapsible\<close> is \<^verbatim>\<open>isCollapsible()\<close> of a child node.
\<close>

record 'a Payload =
  blank :: 'a
  aggregate :: "'a list \<Rightarrow> 'a"
  collapsible :: "'a OctreeNode \<Rightarrow> bool"

text \<open>
  \<^verbatim>\<open>innerChild\<close> and \<^verbatim>\<open>leafChild\<close> dereference the child pointer. Dereferencing a null
  pointer, or reading a leaf block as an inner block, has no defined behaviour: the model
  returns \<open>None\<close>, and every function that dereferences propagates it.
\<close>

fun innerChild :: "'a OctreeNode \<Rightarrow> index_t \<Rightarrow> 'a OctreeNode option" where
  "innerChild (InnerNode d m l (Some cs)) i =
     (if i < length cs then (case cs ! i of InnerNode d' m' l' c' \<Rightarrow> Some (cs ! i) | LeafNode d' m' \<Rightarrow> None)
      else None)"
| "innerChild (InnerNode d m l None) i = None"
| "innerChild (LeafNode d m) i = None"

fun leafChild :: "'a OctreeNode \<Rightarrow> index_t \<Rightarrow> 'a OctreeNode option" where
  "leafChild (InnerNode d m l (Some cs)) i =
     (if i < length cs then (case cs ! i of LeafNode d' m' \<Rightarrow> Some (cs ! i) | InnerNode d' m' l' c' \<Rightarrow> None)
      else None)"
| "leafChild (InnerNode d m l None) i = None"
| "leafChild (LeafNode d m) i = None"

text \<open>Writing a child back into its parent's block (the source mutates it in place).\<close>

fun setChild :: "'a OctreeNode \<Rightarrow> index_t \<Rightarrow> 'a OctreeNode \<Rightarrow> 'a OctreeNode" where
  "setChild (InnerNode d m l (Some cs)) i c = InnerNode d m l (Some (cs[i := c]))"
| "setChild n i c = n"

fun setModifiedBit :: "'a OctreeNode \<Rightarrow> index_t \<Rightarrow> bool \<Rightarrow> 'a OctreeNode" where
  "setModifiedBit (InnerNode d m l c) i b = InnerNode d (if b then set_bit i m else unset_bit i m) l c"
| "setModifiedBit (LeafNode d m) i b = LeafNode d (if b then set_bit i m else unset_bit i m)"

fun setModifiedAll :: "'a OctreeNode \<Rightarrow> IndexField \<Rightarrow> 'a OctreeNode" where
  "setModifiedAll (InnerNode d m l c) v = InnerNode d v l c"
| "setModifiedAll (LeafNode d m) v = LeafNode d v"

fun setData :: "'a OctreeNode \<Rightarrow> 'a list \<Rightarrow> 'a OctreeNode" where
  "setData (InnerNode d m l c) v = InnerNode v m l c"
| "setData (LeafNode d m) v = LeafNode v m"

text \<open>
  Modelled from the spec: \<^verbatim>\<open>fill\<close> and \<^verbatim>\<open>clear\<close> of \<^verbatim>\<open>octree_node.h\<close>. \<^verbatim>\<open>fill\<close> seeds a fresh
  child from its parent's slot: it copies the parent payload to the eight slots of the
  child and takes over the parent's modified state; a filled inner child has no children
  of its own (all its leaf bits set). \<^verbatim>\<open>clear\<close> resets the payload of a deleted child.
\<close>

fun fill :: "'a OctreeNode \<Rightarrow> 'a OctreeNode \<Rightarrow> index_t \<Rightarrow> 'a OctreeNode" where
  "fill (InnerNode d m l c) parent i =
     InnerNode (replicate 8 (data parent ! i)) (if bit (modified parent) i then - 1 else 0) (- 1) c"
| "fill (LeafNode d m) parent i =
     LeafNode (replicate 8 (data parent ! i)) (if bit (modified parent) i then - 1 else 0)"

definition clear :: "'a Payload \<Rightarrow> 'a OctreeNode \<Rightarrow> 'a OctreeNode" where
  "clear P n = setData n (replicate 8 (blank P))"

text \<open>\<^verbatim>\<open>new InnerNodeBlock()\<close> and \<^verbatim>\<open>new LeafNodeBlock()\<close>: eight value-initialised nodes.\<close>

definition newInnerNodeBlock :: "'a Payload \<Rightarrow> 'a OctreeNode list" where
  "newInnerNodeBlock P = replicate 8 (InnerNode (replicate 8 (blank P)) 0 0 None)"

definition newLeafNodeBlock :: "'a Payload \<Rightarrow> 'a OctreeNode list" where
  "newLeafNodeBlock P = replicate 8 (LeafNode (replicate 8 (blank P)) 0)"

text \<open>
  \<^verbatim>\<open>createInnerChildren(node, index, depth)\<close> and \<^verbatim>\<open>createLeafChildren(node, index)\<close>, for a
  map that does not reuse freed blocks (\<^verbatim>\<open>ReuseNodes = false\<close>, the default) and with the
  locks left out (one thread).
\<close>

fun createInnerChildren :: "'a Payload \<Rightarrow> 'a OctreeNode \<Rightarrow> index_t \<Rightarrow> 'a OctreeNode option" where
  "createInnerChildren P (InnerNode d m l c) i =
     (if bit l i then
        (let cs = (case c of None \<Rightarrow> newInnerNodeBlock P | Some cs \<Rightarrow> cs);
             node = InnerNode d m l (Some cs)
         in case innerChild node i of
              None \<Rightarrow> None
            | Some ch \<Rightarrow> Some (InnerNode d m (unset_bit i l) (Some (cs[i := fill ch node i]))))
      else Some (InnerNode d m l c))"
| "createInnerChildren P (LeafNode d m) i = None"

fun createLeafChildren :: "'a Payload \<Rightarrow> 'a OctreeNode \<Rightarrow> index_t \<Rightarrow> 'a OctreeNode option" where
  "createLeafChildren P (InnerNode d m l c) i =
     (if bit l i then
        (let cs = (case c of None \<Rightarrow> newLeafNodeBlock P | Some cs \<Rightarrow> cs);
             node = InnerNode d m l (Some cs)
         in case leafChild node i of
              None \<Rightarrow> None
            | Some ch \<Rightarrow> Some (InnerNode d m (unset_bit i l) (Some (cs[i := fill ch node i]))))
      else Some (InnerNode d m l c))"
| "createLeafChildren P (LeafNode d m) i = None"

text \<open>
  The loops \<^verbatim>\<open>for (i = 0; 8 != i; ++i) if (indices[i]) ...\<close> over the children of a node:
  the body runs on child \<open>i\<close> for every set bit \<open>i\<close>, and the loop fails when a body fails.
\<close>

definition forIndices ::
  "IndexField \<Rightarrow> ('n \<Rightarrow> 'n option) \<Rightarrow> 'n list \<Rightarrow> 'n list option" where
  "forIndices ind g cs =
     those (map (\<lambda>(i, c). if bit ind i then g c else Some c) (zip [0..<length cs] cs))"

text \<open>The callbacks of \<^verbatim>\<open>apply\<close>, by their effect on the payload: \<^verbatim>\<open>f(node, index)\<close> and \<^verbatim>\<open>f2(node)\<close>.\<close>

definition applyF :: "('a \<Rightarrow> 'a) \<Rightarrow> 'a OctreeNode \<Rightarrow> index_t \<Rightarrow> 'a OctreeNode" where
  "applyF f n i = setData n ((data n)[i := f (data n ! i)])"

definition applyF2 :: "('a list \<Rightarrow> 'a list) \<Rightarrow> 'a OctreeNode \<Rightarrow> 'a OctreeNode" where
  "applyF2 f2 n = setData n (f2 (data n))"

text \<open>\<^verbatim>\<open>for (j = 0; 8 != j; ++j) if (children.leaf[j]) f(children, j)\<close>\<close>

definition applyFLeaves :: "('a \<Rightarrow> 'a) \<Rightarrow> 'a OctreeNode \<Rightarrow> 'a OctreeNode" where
  "applyFLeaves f n = fold (\<lambda>j n'. if bit (leaf n) j then applyF f n' j else n') [0..<8] n"

text \<open>\<^verbatim>\<open>applyAllRecurs(node, indices, depth, f, f2)\<close>\<close>

function applyAllRecurs ::
  "('a \<Rightarrow> 'a) \<Rightarrow> ('a list \<Rightarrow> 'a list) \<Rightarrow> 'a OctreeNode \<Rightarrow> IndexField \<Rightarrow> depth_t
     \<Rightarrow> 'a OctreeNode option" where
  "applyAllRecurs f f2 node indices depth =
     (case node of
        LeafNode d m \<Rightarrow> None
      | InnerNode d m l None \<Rightarrow> (if indices = 0 then Some node else None)
      | InnerNode d m l (Some cs) \<Rightarrow>
          (case
             (if 1 = depth then
                forIndices indices
                  (\<lambda>ch. case ch of
                     LeafNode d' m' \<Rightarrow> Some (setModifiedAll (applyF2 f2 ch) (- 1))
                   | InnerNode d' m' l' c' \<Rightarrow> None) cs
              else
                forIndices indices
                  (\<lambda>ch. case ch of
                     LeafNode d' m' \<Rightarrow> None
                   | InnerNode d' m' l' c' \<Rightarrow>
                       (if l' = - 1 then Some (setModifiedAll (applyF2 f2 ch) (- 1))
                        else
                          (case applyAllRecurs f f2
                                  (if l' \<noteq> 0 then applyFLeaves f ch else ch) (NOT l') (depth - 1) of
                             None \<Rightarrow> None
                           | Some ch' \<Rightarrow> Some (setModifiedAll ch' (- 1))))) cs)
           of None \<Rightarrow> None
            | Some cs' \<Rightarrow> Some (InnerNode d m l (Some cs'))))"
  by pat_completeness auto
termination
proof -
  have dec: "unat (depth - 2) < unat (depth - 1)" if "depth \<noteq> 1" for depth :: depth_t
  proof -
    from that have n0: "depth - 1 \<noteq> 0" by simp
    have "unat (depth - 1 - 1) = unat (depth - 1) - 1" using n0 by (rule unat_minus_one)
    moreover have "0 < unat (depth - 1)" using n0 by (simp add: unat_gt_0)
    ultimately show ?thesis by simp
  qed
  show ?thesis
    by (relation "measure (\<lambda>(f, f2, node, indices, depth). unat (depth - 1))")
      (auto simp add: dec)
qed

text \<open>
  Modelled from the spec: the handle \<^verbatim>\<open>Node\<close> of \<^verbatim>\<open>node.h\<close> (not among the sources): a pointer
  to the node block that holds the data, the code of the node and the depth of the block.
  The pointer is modelled by the path of slots from the root block to the block;
  \<^verbatim>\<open>Node()\<close> carries the null pointer.
\<close>

record Node =
  node_data :: "index_t list option"
  node_code :: Code
  node_dataDepth :: depth_t

definition Node_null :: Node where
  "Node_null = \<lparr> node_data = None, node_code = 0, node_dataDepth = 0 \<rparr>"

definition Node_make :: "index_t list \<Rightarrow> Code \<Rightarrow> depth_t \<Rightarrow> Node" where
  "Node_make p c d = \<lparr> node_data = Some p, node_code = c, node_dataDepth = d \<rparr>"

text \<open>
  \<^verbatim>\<open>apply(InnerNode& node, depth_t depth, Code code, f, f2)\<close>. The loop that walks down from
  \<^verbatim>\<open>node\<close> is the recursion; the blocks on the way are rebuilt around the changed child.
\<close>

function apply_node ::
  "'a Payload \<Rightarrow> ('a \<Rightarrow> 'a) \<Rightarrow> ('a list \<Rightarrow> 'a list) \<Rightarrow> 'a OctreeNode \<Rightarrow> index_t list
     \<Rightarrow> depth_t \<Rightarrow> Code \<Rightarrow> ('a OctreeNode \<times> Node) option" where
  "apply_node P f f2 node path depth code =
     (case node of
        LeafNode d m \<Rightarrow> None
      | InnerNode d m l c \<Rightarrow>
          (case Code_index code depth of
             None \<Rightarrow> None
           | Some index \<Rightarrow>
               (if max (Code_depth code) 1 \<noteq> depth then
                  (case createInnerChildren P node index of
                     None \<Rightarrow> None
                   | Some cur \<Rightarrow>
                       (let cur = setModifiedBit cur index True
                        in case innerChild cur index of
                             None \<Rightarrow> None
                           | Some ch \<Rightarrow>
                               (case apply_node P f f2 ch (path @ [index]) (depth - 1) code of
                                  None \<Rightarrow> None
                                | Some (ch', ret) \<Rightarrow> Some (setChild cur index ch', ret))))
                else if 0 = Code_depth code then
                  (case createLeafChildren P node index of
                     None \<Rightarrow> None
                   | Some cur \<Rightarrow>
                       (let cur = setModifiedBit cur index True
                        in case leafChild cur index of
                             None \<Rightarrow> None
                           | Some ch \<Rightarrow>
                               (case Code_index code 0 of
                                  None \<Rightarrow> None
                                | Some child_index \<Rightarrow>
                                    (let ch = applyF f ch child_index;
                                         ch = setModifiedBit ch child_index True
                                     in Some (setChild cur index ch,
                                              Node_make (path @ [index]) code 0)))))
                else if bit l index then
                  Some (setModifiedBit (applyF f node index) index True, Node_make path code depth)
                else
                  (case applyAllRecurs f f2 node (set_bit index 0) depth of
                     None \<Rightarrow> None
                   | Some cur \<Rightarrow>
                       Some (setModifiedBit cur index True, Node_make path code depth)))))"
  by pat_completeness auto
termination
proof -
  have dec: "unat (depth - 1 - md) < unat (depth - md)" if "md \<noteq> depth" for depth md :: depth_t
  proof -
    from that have n0: "depth - md \<noteq> 0" by simp
    have "unat (depth - md - 1) = unat (depth - md) - 1" using n0 by (rule unat_minus_one)
    moreover have "0 < unat (depth - md)" using n0 by (simp add: unat_gt_0)
    moreover have "depth - 1 - md = depth - md - 1" by simp
    ultimately show ?thesis by (simp only:)
  qed
  show ?thesis
    by (relation "measure (\<lambda>(P, f, f2, node, path, depth, code).
          unat (depth - max (Code_depth code) 1))") (auto simp add: dec)
qed

text \<open>
  \<^verbatim>\<open>deleteLeafChildren(node, indices, manual_pruning)\<close>. \<open>ap\<close> is \<^verbatim>\<open>automaticPruning()\<close>. Without
  reuse of blocks \<^verbatim>\<open>deallocateLeafChildren(node, prune)\<close> frees the block and nulls the pointer
  when \<open>prune\<close> holds and does nothing otherwise.
\<close>

definition deleteLeafChildren ::
  "'a Payload \<Rightarrow> bool \<Rightarrow> 'a OctreeNode \<Rightarrow> IndexField \<Rightarrow> bool \<Rightarrow> 'a OctreeNode option" where
  "deleteLeafChildren P ap node indices manual_pruning =
     (case node of
        LeafNode d m \<Rightarrow> None
      | InnerNode d m l c \<Rightarrow>
          (let new_leaf = indices AND NOT l
           in if new_leaf = 0 then Some node
              else
                (case c of
                   None \<Rightarrow> None
                 | Some cs \<Rightarrow>
                     (case forIndices new_leaf
                             (\<lambda>ch. case ch of
                                LeafNode d' m' \<Rightarrow> Some (clear P ch)
                              | InnerNode d' m' l' c' \<Rightarrow> None) cs of
                        None \<Rightarrow> None
                      | Some cs' \<Rightarrow>
                          Some (InnerNode d m (l OR indices)
                            (if l OR indices = - 1 \<and> (manual_pruning \<or> ap) then None
                             else Some cs'))))))"

text \<open>
  \<^verbatim>\<open>deleteChildren(node, indices, depth, manual_pruning)\<close>. The call
  \<^verbatim>\<open>deleteChildren(child, depth - 1, manual_pruning)\<close> on a child is the same function with
  the indices \<^verbatim>\<open>~child.leaf\<close>, in both of its branches.
\<close>

function deleteChildren ::
  "'a Payload \<Rightarrow> bool \<Rightarrow> 'a OctreeNode \<Rightarrow> IndexField \<Rightarrow> depth_t \<Rightarrow> bool
     \<Rightarrow> 'a OctreeNode option" where
  "deleteChildren P ap node indices depth manual_pruning =
     (if 1 = depth then deleteLeafChildren P ap node indices manual_pruning
      else
        (case node of
           LeafNode d m \<Rightarrow> None
         | InnerNode d m l c \<Rightarrow>
             (let new_leaf = indices AND NOT l
              in if new_leaf = 0 then Some node
                 else
                   (case c of
                      None \<Rightarrow> None
                    | Some cs \<Rightarrow>
                        (case forIndices new_leaf
                                (\<lambda>ch. case ch of
                                   LeafNode d' m' \<Rightarrow> None
                                 | InnerNode d' m' l' c' \<Rightarrow>
                                     (case deleteChildren P ap ch (NOT l') (depth - 1)
                                             manual_pruning of
                                        None \<Rightarrow> None
                                      | Some ch' \<Rightarrow> Some (clear P ch'))) cs of
                           None \<Rightarrow> None
                         | Some cs' \<Rightarrow>
                             Some (InnerNode d m (l OR indices)
                               (if l OR indices = - 1 \<and> (manual_pruning \<or> ap) then None
                                else Some cs')))))))"
  by pat_completeness auto
termination
proof -
  have dec: "unat (depth - 2) < unat (depth - 1)" if "depth \<noteq> 1" for depth :: depth_t
  proof -
    from that have n0: "depth - 1 \<noteq> 0" by simp
    have "unat (depth - 1 - 1) = unat (depth - 1) - 1" using n0 by (rule unat_minus_one)
    moreover have "0 < unat (depth - 1)" using n0 by (simp add: unat_gt_0)
    ultimately show ?thesis by simp
  qed
  show ?thesis
    by (relation "measure (\<lambda>(P, ap, node, indices, depth, manual_pruning). unat (depth - 1))")
      (auto simp add: dec)
qed

text \<open>\<^verbatim>\<open>deleteChildren(node, depth, manual_pruning)\<close>\<close>

definition deleteChildren_all ::
  "'a Payload \<Rightarrow> bool \<Rightarrow> 'a OctreeNode \<Rightarrow> depth_t \<Rightarrow> bool \<Rightarrow> 'a OctreeNode option" where
  "deleteChildren_all P ap node depth manual_pruning =
     (case node of
        LeafNode d m \<Rightarrow> None
      | InnerNode d m l c \<Rightarrow>
          (if 1 = depth then deleteLeafChildren P ap node (NOT l) manual_pruning
           else deleteChildren P ap node (NOT l) depth manual_pruning))"

text \<open>\<^verbatim>\<open>child(parent, child_index, parent_depth)\<close>\<close>

definition child :: "'a OctreeNode \<Rightarrow> index_t \<Rightarrow> depth_t \<Rightarrow> 'a OctreeNode option" where
  "child parent child_index parent_depth =
     (if 1 = parent_depth then leafChild parent child_index else innerChild parent child_index)"

text \<open>The bit field with bit \<open>i\<close> set for the slots \<open>i\<close> in \<open>0..7\<close> where \<open>p i\<close> holds.\<close>

definition bitsWhere :: "(index_t \<Rightarrow> bool) \<Rightarrow> IndexField" where
  "bitsWhere p = fold (\<lambda>i w. if p i then set_bit i w else w) [0..<8] 0"

text \<open>
  \<^verbatim>\<open>isCollapsible(node, indices, depth)\<close>: the children named by \<open>indices\<close> are read, so all
  of them have to be there.
\<close>

definition isCollapsible ::
  "'a Payload \<Rightarrow> 'a OctreeNode \<Rightarrow> IndexField \<Rightarrow> depth_t \<Rightarrow> IndexField option" where
  "isCollapsible P node indices depth =
     (if \<forall>i \<in> set [0..<8]. bit indices i \<longrightarrow> child node i depth \<noteq> None
      then Some (bitsWhere (\<lambda>i. bit indices i \<and>
             (case child node i depth of None \<Rightarrow> False | Some ch \<Rightarrow> collapsible P ch)))
      else None)"

text \<open>\<^verbatim>\<open>prune(node, indices, depth)\<close>: returns the node; the source also returns the indices.\<close>

definition prune ::
  "'a Payload \<Rightarrow> bool \<Rightarrow> 'a OctreeNode \<Rightarrow> IndexField \<Rightarrow> depth_t \<Rightarrow> 'a OctreeNode option" where
  "prune P ap node indices depth =
     (case isCollapsible P node indices depth of
        None \<Rightarrow> None
      | Some indices' \<Rightarrow>
          (if indices' \<noteq> 0 then deleteChildren P ap node indices' depth False else Some node))"

text \<open>
  \<^verbatim>\<open>updateNode(node, indices, depth)\<close>: the hook \<^verbatim>\<open>derived().updateNode(node, i, children[i])\<close>
  sets the payload of slot \<open>i\<close> from child \<open>i\<close>, for every index; then the node is pruned.
\<close>

definition updateNode ::
  "'a Payload \<Rightarrow> bool \<Rightarrow> 'a OctreeNode \<Rightarrow> IndexField \<Rightarrow> depth_t \<Rightarrow> 'a OctreeNode option" where
  "updateNode P ap node indices depth =
     (if \<forall>i \<in> set [0..<8]. bit indices i \<longrightarrow> child node i depth \<noteq> None
      then prune P ap
             (setData node
                (map (\<lambda>i. if bit indices i
                           then (case child node i depth of
                                   None \<Rightarrow> data node ! i
                                 | Some ch \<Rightarrow> aggregate P (data ch))
                           else data node ! i) [0..<length (data node)]))
             indices depth
      else None)"

text \<open>\<^verbatim>\<open>propagateModifiedRecurs<KeepModified>(node, depth, max_depth)\<close>\<close>

function propagateModifiedRecurs ::
  "'a Payload \<Rightarrow> bool \<Rightarrow> bool \<Rightarrow> 'a OctreeNode \<Rightarrow> depth_t \<Rightarrow> depth_t \<Rightarrow> 'a OctreeNode option" where
  "propagateModifiedRecurs P ap keep node depth max_depth =
     (case node of
        LeafNode d m \<Rightarrow> None
      | InnerNode d m l c \<Rightarrow>
          (let modified_parent = m AND NOT l
           in if modified_parent = 0 then
                Some (if \<not> keep \<and> depth \<le> max_depth then InnerNode d 0 l c else node)
              else
                (case
                   (if 1 = depth then
                      (if \<not> keep then
                         (case c of
                            None \<Rightarrow> None
                          | Some cs \<Rightarrow>
                              map_option Some
                                (forIndices modified_parent
                                   (\<lambda>ch. case ch of
                                      LeafNode d' m' \<Rightarrow> Some (LeafNode d' 0)
                                    | InnerNode d' m' l' c' \<Rightarrow> None) cs))
                       else Some c)
                    else
                      (case c of
                         None \<Rightarrow> None
                       | Some cs \<Rightarrow>
                           map_option Some
                             (forIndices modified_parent
                                (\<lambda>ch. case ch of
                                   LeafNode d' m' \<Rightarrow> None
                                 | InnerNode d' m' l' c' \<Rightarrow>
                                     propagateModifiedRecurs P ap keep ch (depth - 1) max_depth)
                                cs)))
                 of None \<Rightarrow> None
                  | Some c' \<Rightarrow>
                      (if depth \<le> max_depth then
                         (case updateNode P ap (InnerNode d m l c') modified_parent depth of
                            None \<Rightarrow> None
                          | Some node' \<Rightarrow>
                              Some (if \<not> keep then setModifiedAll node' 0 else node'))
                       else Some (InnerNode d m l c')))))"
  by pat_completeness auto
termination
proof -
  have dec: "unat (depth - 2) < unat (depth - 1)" if "depth \<noteq> 1" for depth :: depth_t
  proof -
    from that have n0: "depth - 1 \<noteq> 0" by simp
    have "unat (depth - 1 - 1) = unat (depth - 1) - 1" using n0 by (rule unat_minus_one)
    moreover have "0 < unat (depth - 1)" using n0 by (simp add: unat_gt_0)
    ultimately show ?thesis by simp
  qed
  show ?thesis
    by (relation "measure (\<lambda>(P, ap, keep, node, depth, max_depth). unat (depth - 1))")
      (auto simp add: dec)
qed

text \<open>\<^verbatim>\<open>propagateModified(InnerNode& node, index, depth, keep_modified, max_depth)\<close>\<close>

definition propagateModified_node ::
  "'a Payload \<Rightarrow> bool \<Rightarrow> 'a OctreeNode \<Rightarrow> index_t \<Rightarrow> depth_t \<Rightarrow> bool \<Rightarrow> depth_t
     \<Rightarrow> 'a OctreeNode option" where
  "propagateModified_node P ap node index depth keep_modified max_depth =
     (case node of
        LeafNode d m \<Rightarrow> None
      | InnerNode d m l c \<Rightarrow>
          (if \<not> bit m index then Some node
           else
             (case
                (if 1 = depth then
                   (if \<not> keep_modified then
                      (case leafChild node index of
                         None \<Rightarrow> None
                       | Some ch \<Rightarrow> Some (setChild node index (setModifiedAll ch 0)))
                    else Some node)
                 else
                   (case innerChild node index of
                      None \<Rightarrow> None
                    | Some ch \<Rightarrow>
                        (case propagateModifiedRecurs P ap keep_modified ch (depth - 1) max_depth of
                           None \<Rightarrow> None
                         | Some ch' \<Rightarrow> Some (setChild node index ch'))))
              of None \<Rightarrow> None
               | Some node1 \<Rightarrow>
                   (if depth \<le> max_depth then
                      (case updateNode P ap node1 (set_bit index 0) depth of
                         None \<Rightarrow> None
                       | Some node2 \<Rightarrow>
                           Some (if \<not> keep_modified then setModifiedBit node2 index False
                                 else node2))
                    else Some node1))))"

text \<open>\<^verbatim>\<open>resetModifiedRecurs(node, depth, max_depth)\<close>\<close>

function resetModifiedRecurs ::
  "'a OctreeNode \<Rightarrow> depth_t \<Rightarrow> depth_t \<Rightarrow> 'a OctreeNode option" where
  "resetModifiedRecurs node depth max_depth =
     (case node of
        LeafNode d m \<Rightarrow> None
      | InnerNode d m l c \<Rightarrow>
          (let modified_parents = m AND NOT l
           in if modified_parents = 0 then
                Some (if depth \<le> max_depth then InnerNode d 0 l c else node)
              else
                (case c of
                   None \<Rightarrow> None
                 | Some cs \<Rightarrow>
                     (case
                        (if 1 = depth then
                           forIndices (- 1)
                             (\<lambda>ch. case ch of
                                LeafNode d' m' \<Rightarrow> Some (LeafNode d' 0)
                              | InnerNode d' m' l' c' \<Rightarrow> None) cs
                         else
                           forIndices modified_parents
                             (\<lambda>ch. case ch of
                                LeafNode d' m' \<Rightarrow> None
                              | InnerNode d' m' l' c' \<Rightarrow>
                                  resetModifiedRecurs ch (depth - 1) max_depth) cs)
                      of None \<Rightarrow> None
                       | Some cs' \<Rightarrow>
                           Some (InnerNode d (if depth \<le> max_depth then 0 else m) l (Some cs'))))))"
  by pat_completeness auto
termination
proof -
  have dec: "unat (depth - 2) < unat (depth - 1)" if "depth \<noteq> 1" for depth :: depth_t
  proof -
    from that have n0: "depth - 1 \<noteq> 0" by simp
    have "unat (depth - 1 - 1) = unat (depth - 1) - 1" using n0 by (rule unat_minus_one)
    moreover have "0 < unat (depth - 1)" using n0 by (simp add: unat_gt_0)
    ultimately show ?thesis by simp
  qed
  show ?thesis
    by (relation "measure (\<lambda>(node, depth, max_depth). unat (depth - 1))") (auto simp add: dec)
qed

text \<open>\<^verbatim>\<open>resetModified(InnerNode& node, index, depth, max_depth)\<close>\<close>

definition resetModified_node ::
  "'a OctreeNode \<Rightarrow> index_t \<Rightarrow> depth_t \<Rightarrow> depth_t \<Rightarrow> 'a OctreeNode option" where
  "resetModified_node node index depth max_depth =
     (case node of
        LeafNode d m \<Rightarrow> None
      | InnerNode d m l c \<Rightarrow>
          (if bit l index \<or> \<not> bit m index then
             Some (if depth \<le> max_depth then setModifiedBit node index False else node)
           else
             (case
                (if 1 = depth then
                   (case leafChild node index of
                      None \<Rightarrow> None
                    | Some ch \<Rightarrow> Some (setChild node index (setModifiedAll ch 0)))
                 else
                   (case innerChild node index of
                      None \<Rightarrow> None
                    | Some ch \<Rightarrow>
                        (case resetModifiedRecurs ch (depth - 1) max_depth of
                           None \<Rightarrow> None
                         | Some ch' \<Rightarrow> Some (setChild node index ch'))))
              of None \<Rightarrow> None
               | Some node1 \<Rightarrow>
                   Some (if depth \<le> max_depth then setModifiedBit node1 index False else node1))))"

section \<open>The map (octree\_base.h)\<close>

text \<open>
  The state of \<^verbatim>\<open>OctreeBase\<close> that the operations below read and write: the root node, the
  number of depth levels and the automatic-pruning flag. The node sizes (floating point)
  and the node counters take no part in them.
\<close>

record 'a Octree =
  root :: "'a OctreeNode"
  depth_levels :: depth_t
  automatic_prune :: bool

text \<open>
  The outcome of a public operation: it returns, it throws, or its behaviour is undefined
  (a null pointer was dereferenced).
\<close>

datatype error = out_of_range string | invalid_argument string

datatype 'r outcome = Return 'r | Throw error | Undefined

definition of_option :: "'r option \<Rightarrow> 'r outcome" where
  "of_option x = (case x of None \<Rightarrow> Undefined | Some r \<Rightarrow> Return r)"

definition minDepthLevels :: depth_t where "minDepthLevels = 3"

definition maxDepthLevels :: depth_t where "maxDepthLevels = 22"

definition rootDepth :: "'a Octree \<Rightarrow> depth_t" where
  "rootDepth t = depth_levels t - 1"

definition rootIndex :: index_t where "rootIndex = 0"

text \<open>\<^verbatim>\<open>rootCode()\<close>: \<^verbatim>\<open>Code(rootIndex() << 3 * rootDepth(), rootDepth())\<close>\<close>

definition rootCode :: "'a Octree \<Rightarrow> Code" where
  "rootCode t = Code_make (push_bit (3 * unat (rootDepth t)) (of_nat rootIndex)) (rootDepth t)"


text \<open>
  Walking down from a node block towards a code: the loop shared by \<^verbatim>\<open>leafNodeAndDepth\<close>
  and \<^verbatim>\<open>operator()(Node)\<close>. It returns the block, its path from the root and its depth.
\<close>

function descend ::
  "'a OctreeNode \<Rightarrow> index_t list \<Rightarrow> depth_t \<Rightarrow> Code
     \<Rightarrow> ('a OctreeNode \<times> index_t list \<times> depth_t) option" where
  "descend node path depth code =
     (case node of
        LeafNode d m \<Rightarrow> None
      | InnerNode d m l c \<Rightarrow>
          (case Code_index code depth of
             None \<Rightarrow> None
           | Some index \<Rightarrow>
               (if max (Code_depth code) 1 \<noteq> depth \<and> \<not> bit l index then
                  (case innerChild node index of
                     None \<Rightarrow> None
                   | Some ch \<Rightarrow> descend ch (path @ [index]) (depth - 1) code)
                else Some (node, path, depth))))"
  by pat_completeness auto
termination
proof -
  have dec: "unat (depth - 1 - md) < unat (depth - md)" if "md \<noteq> depth" for depth md :: depth_t
  proof -
    from that have n0: "depth - md \<noteq> 0" by simp
    have "unat (depth - md - 1) = unat (depth - md) - 1" using n0 by (rule unat_minus_one)
    moreover have "0 < unat (depth - md)" using n0 by (simp add: unat_gt_0)
    moreover have "depth - 1 - md = depth - md - 1" by simp
    ultimately show ?thesis by (simp only:)
  qed
  show ?thesis
    by (relation "measure (\<lambda>(node, path, depth, code).
          unat (depth - max (Code_depth code) 1))") (auto simp add: dec)
qed

text \<open>The last step of both: a code of depth 0 under a split slot names a slot of a leaf block.\<close>

definition descend_leaf ::
  "('a OctreeNode \<times> index_t list \<times> depth_t) \<Rightarrow> Code
     \<Rightarrow> ('a OctreeNode \<times> index_t list \<times> depth_t) option" where
  "descend_leaf r code =
     (case r of (node, path, depth) \<Rightarrow>
        (case node of
           LeafNode d m \<Rightarrow> None
         | InnerNode d m l c \<Rightarrow>
             (case Code_index code depth of
                None \<Rightarrow> None
              | Some index \<Rightarrow>
                  (if 0 = Code_depth code \<and> \<not> bit l index then
                     (case leafChild node index of
                        None \<Rightarrow> None
                      | Some ch \<Rightarrow> Some (ch, path @ [index], 0))
                   else Some (node, path, depth)))))"

text \<open>\<^verbatim>\<open>leafNodeAndDepth(Code code)\<close>\<close>

definition leafNodeAndDepth ::
  "'a Octree \<Rightarrow> Code \<Rightarrow> ('a OctreeNode \<times> index_t list \<times> depth_t) option" where
  "leafNodeAndDepth t code =
     (case descend (root t) [] (rootDepth t) code of
        None \<Rightarrow> None
      | Some r \<Rightarrow> descend_leaf r code)"

text \<open>\<^verbatim>\<open>Node operator()(Code code) const\<close>: the lookup of a node by its code.\<close>

definition find :: "'a Octree \<Rightarrow> Code \<Rightarrow> Node option" where
  "find t code =
     (case leafNodeAndDepth t code of
        None \<Rightarrow> None
      | Some (node, path, depth) \<Rightarrow> Some (Node_make path code depth))"

text \<open>\<^verbatim>\<open>bool isModified(Code code) const\<close>\<close>

definition isModified :: "'a Octree \<Rightarrow> Code \<Rightarrow> bool option" where
  "isModified t code =
     (case leafNodeAndDepth t code of
        None \<Rightarrow> None
      | Some (node, path, depth) \<Rightarrow>
          (case Code_index code depth of
             None \<Rightarrow> None
           | Some index \<Rightarrow> Some (bit (modified node) index)))"

text \<open>
  \<^verbatim>\<open>apply(Code code, f, f2, propagate)\<close> and the public \<^verbatim>\<open>propagateModified(keep_modified,
  max_depth)\<close> and \<^verbatim>\<open>resetModified(max_depth)\<close>.
\<close>

definition propagateModified ::
  "'a Payload \<Rightarrow> 'a Octree \<Rightarrow> bool \<Rightarrow> depth_t \<Rightarrow> 'a Octree outcome" where
  "propagateModified P t keep_modified max_depth =
     of_option
       (map_option (\<lambda>r. t\<lparr>root := r\<rparr>)
          (propagateModified_node P (automatic_prune t) (root t) rootIndex (rootDepth t)
             keep_modified max_depth))"


definition apply_code ::
  "'a Payload \<Rightarrow> 'a Octree \<Rightarrow> Code \<Rightarrow> ('a \<Rightarrow> 'a) \<Rightarrow> ('a list \<Rightarrow> 'a list) \<Rightarrow> bool
     \<Rightarrow> ('a Octree \<times> Node) outcome" where
  "apply_code P t code f f2 propagate =
     (if Code_depth code > rootDepth t then Return (t, Node_null)
      else
        (case apply_node P f f2 (root t) [] (rootDepth t) code of
           None \<Rightarrow> Undefined
         | Some (r, ret) \<Rightarrow>
             (if propagate then
                (case propagateModified P (t\<lparr>root := r\<rparr>) False maxDepthLevels of
                   Return t' \<Rightarrow> Return (t', ret)
                 | Throw e \<Rightarrow> Throw e
                 | Undefined \<Rightarrow> Undefined)
              else Return (t\<lparr>root := r\<rparr>, ret))))"

text \<open>
  \<^verbatim>\<open>isRoot\<close>, \<^verbatim>\<open>operator()(Node)\<close>, \<^verbatim>\<open>sibling\<close> and \<^verbatim>\<open>siblingChecked\<close>. A node handle holds its
  actual data when the depth of its code is the depth of its block.
\<close>

definition isRoot :: "'a Octree \<Rightarrow> Node \<Rightarrow> bool" where
  "isRoot t node \<longleftrightarrow> rootCode t = node_code node"

fun blockAt :: "'a OctreeNode \<Rightarrow> index_t list \<Rightarrow> 'a OctreeNode option" where
  "blockAt n [] = Some n"
| "blockAt (InnerNode d m l (Some cs)) (i # p) = (if i < length cs then blockAt (cs ! i) p else None)"
| "blockAt (InnerNode d m l None) (i # p) = None"
| "blockAt (LeafNode d m) (i # p) = None"

definition isActualData :: "Node \<Rightarrow> bool" where
  "isActualData node \<longleftrightarrow> Code_depth (node_code node) = node_dataDepth node"

definition find_node :: "'a Octree \<Rightarrow> Node \<Rightarrow> Node option" where
  "find_node t node =
     (if isActualData node then Some node
      else
        (case node_data node of
           None \<Rightarrow> None
         | Some p \<Rightarrow>
             (case blockAt (root t) p of
                None \<Rightarrow> None
              | Some n \<Rightarrow>
                  (case descend n p (node_dataDepth node) (node_code node) of
                     None \<Rightarrow> None
                   | Some r \<Rightarrow>
                       (case descend_leaf r (node_code node) of
                          None \<Rightarrow> None
                        | Some (n', p', depth) \<Rightarrow> Some (Node_make p' (node_code node) depth))))))"

definition sibling :: "'a Octree \<Rightarrow> Node \<Rightarrow> index_t \<Rightarrow> Node option" where
  "sibling t node sibling_index =
     (case find_node t node of
        None \<Rightarrow> None
      | Some node' \<Rightarrow>
          Some \<lparr> node_data = node_data node',
                 node_code = Code_sibling (node_code node') (of_nat sibling_index),
                 node_dataDepth = node_dataDepth node' \<rparr>)"

definition siblingChecked :: "'a Octree \<Rightarrow> Node \<Rightarrow> index_t \<Rightarrow> Node outcome" where
  "siblingChecked t node sibling_index =
     (if \<not> isRoot t node then Throw (out_of_range ''Node has no siblings'')
      else if 7 < sibling_index then Throw (out_of_range ''sibling_index out of range'')
      else of_option (sibling t node sibling_index))"

section \<open>Invariants and reachable states\<close>

text \<open>
  \<open>shape\<close>: every allocated block, used or stale, has eight nodes of the kind its depth
  asks for (leaf nodes at depth 0, inner nodes above), each holding eight payloads.
\<close>

function shape :: "'a OctreeNode \<Rightarrow> depth_t \<Rightarrow> bool" where
  "shape node depth =
     (case node of
        LeafNode d m \<Rightarrow> depth = 0 \<and> length d = 8
      | InnerNode d m l c \<Rightarrow>
          (if depth = 0 then False
           else length d = 8 \<and>
             (case c of
                None \<Rightarrow> True
              | Some cs \<Rightarrow> length cs = 8 \<and> (\<forall>ch \<in> set cs. shape ch (depth - 1)))))"
  by pat_completeness auto
termination
proof (relation "measure (\<lambda>(node, depth). unat depth)", goal_cases)
  case 1
  show ?case by simp
next
  case (2 node depth d m l c cs ch)
  then have n0: "depth \<noteq> 0" by simp
  have "unat (depth - 1) = unat depth - 1" using n0 by (rule unat_minus_one)
  moreover have "0 < unat depth" using n0 by (simp add: unat_gt_0)
  ultimately show ?case by simp
qed

text \<open>
  \<open>wf_node\<close>: the shape, and every slot whose leaf bit is clear has its child node in an
  allocated block, well formed in turn.
\<close>

function wf_node :: "'a OctreeNode \<Rightarrow> depth_t \<Rightarrow> bool" where
  "wf_node node depth =
     (case node of
        LeafNode d m \<Rightarrow> depth = 0 \<and> length d = 8
      | InnerNode d m l c \<Rightarrow>
          (if depth = 0 then False
           else length d = 8 \<and>
             (case c of
                None \<Rightarrow> l = - 1
              | Some cs \<Rightarrow>
                  length cs = 8 \<and>
                  (\<forall>(i, ch) \<in> set (zip [0..<8] cs).
                     if bit l i then shape ch (depth - 1) else wf_node ch (depth - 1)))))"
  by pat_completeness auto
termination
proof (relation "measure (\<lambda>(node, depth). unat depth)", goal_cases)
  case 1
  show ?case by simp
next
  case (2 node depth d m l c cs x i ch)
  then have n0: "depth \<noteq> 0" by simp
  have "unat (depth - 1) = unat depth - 1" using n0 by (rule unat_minus_one)
  moreover have "0 < unat depth" using n0 by (simp add: unat_gt_0)
  ultimately show ?case by simp
qed

definition wf_tree :: "'a Octree \<Rightarrow> bool" where
  "wf_tree t \<longleftrightarrow>
     minDepthLevels \<le> depth_levels t \<and> depth_levels t \<le> maxDepthLevels
     \<and> wf_node (root t) (rootDepth t)"


text \<open>
  The path of a code: its slots, as the spec words them, from a depth \<open>hi\<close> down to, and
  without, a depth \<open>lo\<close>. The block that holds the node of a code at depth \<open>lo\<close> is reached
  from the root block by the path from the root depth down to \<open>lo\<close>; a shorter path leads
  to an ancestor.
\<close>

definition code_path :: "Code \<Rightarrow> depth_t \<Rightarrow> depth_t \<Rightarrow> index_t list" where
  "code_path code hi lo = map (spec_index code) (rev [unat lo + 1..<unat hi + 1])"

section \<open>A small map for the concrete cases\<close>

text \<open>
  A map of four depth levels (root depth 3) with natural numbers as payload, the maximum
  as aggregate and no collapsing; \<open>ex_code0\<close> is the depth-0 code of the slots 0, 5, 3, 6
  from the root down, \<open>ex_code2\<close> its ancestor at depth 2.
\<close>

definition ex_P :: "nat Payload" where
  "ex_P = \<lparr> blank = 0, aggregate = (\<lambda>xs. fold max xs 0), collapsible = (\<lambda>n. False) \<rparr>"

definition ex_t0 :: "nat Octree" where
  "ex_t0 = \<lparr> root = InnerNode (replicate 8 0) 0 (- 1) None, depth_levels = 4,
             automatic_prune = False \<rparr>"

definition ex_code0 :: Code where "ex_code0 = Code_make 0x15E 0"

definition ex_code2 :: Code where "ex_code2 = Code_make 0x15E 2"

definition ex_set7 :: "nat \<Rightarrow> nat" where "ex_set7 x = 7"

text \<open>
  \<open>ex_t1\<close> is the map after one write, \<^verbatim>\<open>apply\<close> of \<open>ex_set7\<close> at \<open>ex_code0\<close> without
  propagation; \<open>ex_code1\<close> is a depth-0 code in an octant that this write has not split
  (slots 0, 1, 3, 6 from the root down).
\<close>

definition ex_t1 :: "nat Octree" where
  "ex_t1 =
     (case apply_code ex_P ex_t0 ex_code0 ex_set7 (map ex_set7) False of
        Return (t, n) \<Rightarrow> t
      | Throw e \<Rightarrow> ex_t0
      | Undefined \<Rightarrow> ex_t0)"

definition ex_code1 :: Code where "ex_code1 = Code_make 0x5E 0"

text \<open>The leaf nodes below the block at the slots 0, 5 of \<open>ex_t1\<close>: the write is in node 3, slot 6.\<close>

definition ex_leaves :: "nat OctreeNode list" where
  "ex_leaves = (replicate 8 (LeafNode (replicate 8 0) 0))[3 := LeafNode ((replicate 8 0)[6 := 7]) 64]"

text \<open>\<open>ex_t2\<close> is \<open>ex_t1\<close> after \<^verbatim>\<open>propagateModified(true)\<close>.\<close>

definition ex_t2 :: "nat Octree" where
  "ex_t2 =
     (case propagateModified ex_P ex_t1 True maxDepthLevels of
        Return t \<Rightarrow> t
      | Throw e \<Rightarrow> ex_t1
      | Undefined \<Rightarrow> ex_t1)"

section \<open>Live nodes and the predicates of the claims\<close>

text \<open>
  The node blocks of a tree that exist: the root block, and the child node of every slot
  whose leaf bit is clear, found by its path of slots.
\<close>

fun liveAt :: "'a OctreeNode \<Rightarrow> index_t list \<Rightarrow> 'a OctreeNode option" where
  "liveAt n [] = Some n"
| "liveAt (InnerNode d m l (Some cs)) (i # p) =
     (if i < length cs \<and> \<not> bit l i then liveAt (cs ! i) p else None)"
| "liveAt (InnerNode d m l None) (i # p) = None"
| "liveAt (LeafNode d m) (i # p) = None"

text \<open>
  \<open>keptModified n n'\<close>: every node that exists below \<open>n'\<close> exists below \<open>n\<close> at the same
  path, with the same modified bits.
\<close>

definition keptModified :: "'a OctreeNode \<Rightarrow> 'a OctreeNode \<Rightarrow> bool" where
  "keptModified n n' \<longleftrightarrow>
     (\<forall>p x'. liveAt n' p = Some x' \<longrightarrow> (\<exists>x. liveAt n p = Some x \<and> modified x = modified x'))"

text \<open>\<open>clean\<close>: no modified bit is set in a node and in the live nodes below it.\<close>

function clean :: "'a OctreeNode \<Rightarrow> bool" where
  "clean (LeafNode d m) \<longleftrightarrow> m = 0"
| "clean (InnerNode d m l c) \<longleftrightarrow>
     m = 0 \<and>
     (case c of
        None \<Rightarrow> True
      | Some cs \<Rightarrow> (\<forall>(i, ch) \<in> set (zip [0..<8] cs). \<not> bit l i \<longrightarrow> clean ch))"
  by pat_completeness auto
termination
proof -
  have aux: "size ch < Suc (Suc (n + size_list size cs))"
    if "(i, ch) \<in> set (zip [0..<8] cs)" for i n and ch :: "'a OctreeNode" and cs
  proof -
    from that have "ch \<in> set cs" by (rule set_zip_rightD)
    then have "size ch \<le> size_list size cs" by (simp add: size_list_estimation')
    then show ?thesis by simp
  qed
  show ?thesis by (relation "measure size") (auto simp add: aux)
qed

text \<open>
  \<open>settled\<close>: a node and the live nodes below it carry no modified bit, and the payload of
  every split slot is the aggregate of its child node. \<open>lazy\<close>: the state between writes
  and propagation, where every split slot without its modified bit is settled.
\<close>

function settled :: "'a Payload \<Rightarrow> 'a OctreeNode \<Rightarrow> bool" where
  "settled P (LeafNode d m) \<longleftrightarrow> m = 0"
| "settled P (InnerNode d m l c) \<longleftrightarrow>
     m = 0 \<and>
     (case c of
        None \<Rightarrow> True
      | Some cs \<Rightarrow>
          (\<forall>(i, ch) \<in> set (zip [0..<8] cs).
             \<not> bit l i \<longrightarrow> d ! i = aggregate P (data ch) \<and> settled P ch))"
  by pat_completeness auto
termination
proof -
  have aux: "size ch < Suc (Suc (n + size_list size cs))"
    if "(i, ch) \<in> set (zip [0..<8] cs)" for i n and ch :: "'a OctreeNode" and cs
  proof -
    from that have "ch \<in> set cs" by (rule set_zip_rightD)
    then have "size ch \<le> size_list size cs" by (simp add: size_list_estimation')
    then show ?thesis by simp
  qed
  show ?thesis by (relation "measure (\<lambda>(P, n). size n)") (auto simp add: aux)
qed

function lazy :: "'a Payload \<Rightarrow> 'a OctreeNode \<Rightarrow> bool" where
  "lazy P (LeafNode d m) \<longleftrightarrow> True"
| "lazy P (InnerNode d m l c) \<longleftrightarrow>
     (case c of
        None \<Rightarrow> True
      | Some cs \<Rightarrow>
          (\<forall>(i, ch) \<in> set (zip [0..<8] cs).
             \<not> bit l i \<longrightarrow>
               (if bit m i then lazy P ch
                else d ! i = aggregate P (data ch) \<and> settled P ch)))"
  by pat_completeness auto
termination
proof -
  have aux: "size ch < Suc (Suc (n + size_list size cs))"
    if "(i, ch) \<in> set (zip [0..<8] cs)" for i n and ch :: "'a OctreeNode" and cs
  proof -
    from that have "ch \<in> set cs" by (rule set_zip_rightD)
    then have "size ch \<le> size_list size cs" by (simp add: size_list_estimation')
    then show ?thesis by simp
  qed
  show ?thesis by (relation "measure (\<lambda>(P, n). size n)") (auto simp add: aux)
qed

text \<open>The two invariants under one name: \<open>wf_node\<close> for a live node, \<open>shape\<close> for a stale one.\<close>

definition inv_node :: "bool \<Rightarrow> 'a OctreeNode \<Rightarrow> depth_t \<Rightarrow> bool" where
  "inv_node live n depth = (if live then wf_node n depth else shape n depth)"

section \<open>Bit interleaving\<close>

lemma all_less_numeral:
  "(\<forall>n < numeral k. P (n::nat)) \<longleftrightarrow> (\<forall>n < pred_numeral k. P n) \<and> P (pred_numeral k)"
  by (simp add: numeral_eq_Suc less_Suc_eq) blast

lemma all_less_64: "(\<forall>n<(64::nat). P n) \<longleftrightarrow> (P 0 \<and> P 1 \<and> P 2 \<and> P 3 \<and> P 4 \<and> P 5 \<and> P 6 \<and> P 7 \<and> P 8 \<and> P 9 \<and> P 10 \<and> P 11 \<and> P 12 \<and> P 13 \<and> P 14 \<and> P 15 \<and> P 16 \<and> P 17 \<and> P 18 \<and> P 19 \<and> P 20 \<and> P 21 \<and> P 22 \<and> P 23 \<and> P 24 \<and> P 25 \<and> P 26 \<and> P 27 \<and> P 28 \<and> P 29 \<and> P 30 \<and> P 31 \<and> P 32 \<and> P 33 \<and> P 34 \<and> P 35 \<and> P 36 \<and> P 37 \<and> P 38 \<and> P 39 \<and> P 40 \<and> P 41 \<and> P 42 \<and> P 43 \<and> P 44 \<and> P 45 \<and> P 46 \<and> P 47 \<and> P 48 \<and> P 49 \<and> P 50 \<and> P 51 \<and> P 52 \<and> P 53 \<and> P 54 \<and> P 55 \<and> P 56 \<and> P 57 \<and> P 58 \<and> P 59 \<and> P 60 \<and> P 61 \<and> P 62 \<and> P 63)"
  by (simp add: all_less_numeral conj_ac)

lemma all_less_32: "(\<forall>n<(32::nat). P n) \<longleftrightarrow> (P 0 \<and> P 1 \<and> P 2 \<and> P 3 \<and> P 4 \<and> P 5 \<and> P 6 \<and> P 7 \<and> P 8 \<and> P 9 \<and> P 10 \<and> P 11 \<and> P 12 \<and> P 13 \<and> P 14 \<and> P 15 \<and> P 16 \<and> P 17 \<and> P 18 \<and> P 19 \<and> P 20 \<and> P 21 \<and> P 22 \<and> P 23 \<and> P 24 \<and> P 25 \<and> P 26 \<and> P 27 \<and> P 28 \<and> P 29 \<and> P 30 \<and> P 31)"
  by (simp add: all_less_numeral conj_ac)

lemma word64_bit_beyond: "\<not> n < 64 \<Longrightarrow> \<not> bit (w :: 64 word) n"
proof
  assume "\<not> n < 64" and "bit w n"
  from this(2) have "n < LENGTH(64)" by (rule bit_imp_le_length)
  with \<open>\<not> n < 64\<close> show False by simp
qed

lemma word32_bit_beyond: "\<not> n < 32 \<Longrightarrow> \<not> bit (w :: 32 word) n"
proof
  assume "\<not> n < 32" and "bit w n"
  from this(2) have "n < LENGTH(32)" by (rule bit_imp_le_length)
  with \<open>\<not> n < 32\<close> show False by simp
qed

lemma splitBy3_bit_lt:
  "\<forall>n<64. bit (splitBy3 a) n \<longleftrightarrow> (n mod 3 = 0 \<and> n < 63 \<and> bit a (n div 3))"
  unfolding all_less_64
  apply (intro conjI)
  apply (simp_all add: splitBy3_def Let_def bit_simps)
  done

lemma splitBy3_bit: "bit (splitBy3 a) n \<longleftrightarrow> (n mod 3 = 0 \<and> n < 63 \<and> bit a (n div 3))"
proof (cases "n < 64")
  case True then show ?thesis by (rule splitBy3_bit_lt [rule_format])
next
  case False
  then have "\<not> bit (splitBy3 a) n" by (rule word64_bit_beyond)
  moreover from False have "\<not> n < 63" by simp
  ultimately show ?thesis by (simp only: simp_thms)
qed

lemma get3Bits_bit_lt: "\<forall>n<32. bit (get3Bits c) n \<longleftrightarrow> (n < 21 \<and> bit c (3 * n))"
  unfolding all_less_32
  apply (intro conjI)
  apply (simp_all add: get3Bits_def Let_def bit_simps)
  done

lemma get3Bits_bit: "bit (get3Bits c) n \<longleftrightarrow> (n < 21 \<and> bit c (3 * n))"
proof (cases "n < 32")
  case True then show ?thesis by (rule get3Bits_bit_lt [rule_format])
next
  case False
  then have "\<not> bit (get3Bits c) n" by (rule word32_bit_beyond)
  moreover from False have "\<not> n < 21" by simp
  ultimately show ?thesis by (simp only: simp_thms)
qed

declare pdep_loop.simps [simp del]
declare pext_loop.simps [simp del]

lemma splitBy3_bmi2_bit_lt:
  "\<forall>n<64. bit (splitBy3_bmi2 a) n \<longleftrightarrow> (n mod 3 = 0 \<and> bit a (n div 3))"
  apply (simp only: splitBy3_bmi2_def pdep_u64_def)
  apply (simp add: pdep_loop.simps numeral_2_eq_2 [symmetric] split del: split_of_bool if_split)
  unfolding all_less_64
  apply (intro conjI)
  apply (simp_all add: bit_simps split del: split_of_bool if_split)
  done

lemma key_bits_bounded:
  fixes k :: key_t
  assumes "k < 2 ^ 21" and "bit k j"
  shows "j < 21"
proof -
  from assms(1) have "take_bit 21 k = k"
    unfolding take_bit_eq_mask by (rule less_mask_eq)
  with assms(2) have "bit (take_bit 21 k) j" by (simp only:)
  then show ?thesis by (simp only: bit_take_bit_iff)
qed

lemma get3Bits_splitBy3:
  assumes "k < 2 ^ 21"
  shows "get3Bits (splitBy3 k) = k"
proof (rule bit_eqI)
  fix n
  have "bit k n \<Longrightarrow> n < 21" by (rule key_bits_bounded [OF assms])
  moreover have "n < 21 \<Longrightarrow> 3 * n < 63" by simp
  moreover have e: "3 * n div 3 = n" "3 * n mod 3 = 0" by simp_all
  ultimately show "bit (get3Bits (splitBy3 k)) n = bit k n"
    unfolding get3Bits_bit splitBy3_bit e by blast
qed

lemma splitBy3_eq_bmi2:
  assumes "k < 2 ^ 21"
  shows "splitBy3 k = splitBy3_bmi2 k"
proof (rule bit_eqI)
  fix n :: nat
  assume "possible_bit TYPE(64 word) n"
  then have n: "n < 64" by (simp add: possible_bit_word)
  have "bit k (n div 3) \<Longrightarrow> n div 3 < 21" by (rule key_bits_bounded [OF assms])
  then have "bit k (n div 3) \<Longrightarrow> n < 63" by arith
  then show "bit (splitBy3 k) n = bit (splitBy3_bmi2 k) n"
    unfolding splitBy3_bit splitBy3_bmi2_bit_lt [rule_format, OF n] by blast
qed

lemma mask5: "(0x1F :: 64 word) = mask 5" by (simp add: mask_eq_exp_minus_1)
lemma mask3: "(0x7 :: 64 word) = mask 3" by (simp add: mask_eq_exp_minus_1)

lemma Code_depth_bit: "bit (Code_depth c) n \<longleftrightarrow> n < 5 \<and> bit c n"
  unfolding Code_depth_def mask5 by (auto simp add: bit_simps)

lemma Code_depth_less: "unat (Code_depth c) < 32"
proof -
  have "Code_depth c = take_bit 5 (Code_depth c)"
    by (rule bit_eqI) (auto simp add: Code_depth_bit bit_simps)
  then have "unat (Code_depth c) = take_bit 5 (unat (Code_depth c))"
    by (metis unsigned_take_bit_eq)
  also have "\<dots> < 2 ^ 5" by (rule take_bit_nat_less_exp)
  finally show ?thesis by simp
qed

lemma ucast_Code_depth_bit:
  "bit (ucast (Code_depth c) :: 64 word) n \<longleftrightarrow> n < 5 \<and> bit c n"
  by (auto simp add: bit_simps Code_depth_bit)

lemma normalised_bit:
  assumes "normalised c" and "5 \<le> n" and "bit c n"
  shows "3 * unat (Code_depth c) \<le> n - 5"
proof (rule ccontr)
  assume "\<not> 3 * unat (Code_depth c) \<le> n - 5"
  then have lt: "n - 5 < 3 * unat (Code_depth c)" by simp
  from assms(3) have "n < 64" using word64_bit_beyond by blast
  have "bit (take_bit (3 * unat (Code_depth c)) (Code_code c)) (n - 5)"
    using assms(2,3) lt by (simp add: bit_simps Code_code_def)
  with assms(1) show False by (simp add: normalised_def)
qed


lemma Key_of_Code_bits:
  "bit (key_x (Key_of_Code c)) j \<longleftrightarrow> unat (Code_depth c) \<le> j \<and> j < 21 \<and> bit c (3 * j + 5)"
  "bit (key_y (Key_of_Code c)) j \<longleftrightarrow> unat (Code_depth c) \<le> j \<and> j < 21 \<and> bit c (3 * j + 6)"
  "bit (key_z (Key_of_Code c)) j \<longleftrightarrow> unat (Code_depth c) \<le> j \<and> j < 21 \<and> bit c (3 * j + 7)"
  "key_depth (Key_of_Code c) = Code_depth c"
proof -
  have aux: "\<And>d. d \<le> j \<Longrightarrow> 3 * d + 3 * (j - d) = 3 * j" by simp
  show "bit (key_x (Key_of_Code c)) j \<longleftrightarrow> unat (Code_depth c) \<le> j \<and> j < 21 \<and> bit c (3 * j + 5)"
    by (auto simp add: Key_of_Code_def Key_make_def Code_toKey_def get3Bits_bit bit_simps add.commute aux)
  show "bit (key_y (Key_of_Code c)) j \<longleftrightarrow> unat (Code_depth c) \<le> j \<and> j < 21 \<and> bit c (3 * j + 6)"
    by (auto simp add: Key_of_Code_def Key_make_def Code_toKey_def get3Bits_bit bit_simps add.commute aux)
  show "bit (key_z (Key_of_Code c)) j \<longleftrightarrow> unat (Code_depth c) \<le> j \<and> j < 21 \<and> bit c (3 * j + 7)"
    by (auto simp add: Key_of_Code_def Key_make_def Code_toKey_def get3Bits_bit bit_simps add.commute aux)
  show "key_depth (Key_of_Code c) = Code_depth c"
    by (simp add: Key_of_Code_def Key_make_def)
qed

lemma Code_toCode_bit:
  "bit (Code_toCode k) m \<longleftrightarrow>
     m < 64 \<and> (m mod 3 = 0 \<and> m < 63 \<and> bit (key_x k) (m div 3)
       \<or> m mod 3 = 1 \<and> bit (key_y k) (m div 3)
       \<or> m mod 3 = 2 \<and> bit (key_z k) (m div 3))"
proof (cases "m < 64")
  case False
  then show ?thesis using word64_bit_beyond by blast
next
  case True
  have y: "(1 \<le> m \<and> (m - 1) mod 3 = 0 \<and> m - 1 < 63 \<and> bit (key_y k) ((m - 1) div 3))
      \<longleftrightarrow> (m mod 3 = 1 \<and> bit (key_y k) (m div 3))"
  proof (cases "m mod 3 = 1")
    case True
    then have "1 \<le> m" "(m - 1) mod 3 = 0" "(m - 1) div 3 = m div 3" by presburger+
    moreover from \<open>m < 64\<close> have "m - 1 < 63" by arith
    ultimately show ?thesis using True by (simp only: simp_thms)
  next
    case False
    then have "\<not> (1 \<le> m \<and> (m - 1) mod 3 = 0)" by presburger
    with False show ?thesis by auto
  qed
  have z: "(2 \<le> m \<and> (m - 2) mod 3 = 0 \<and> m - 2 < 63 \<and> bit (key_z k) ((m - 2) div 3))
      \<longleftrightarrow> (m mod 3 = 2 \<and> bit (key_z k) (m div 3))"
  proof (cases "m mod 3 = 2")
    case True
    then have "2 \<le> m" "(m - 2) mod 3 = 0" "(m - 2) div 3 = m div 3" by presburger+
    moreover from \<open>m < 64\<close> have "m - 2 < 63" by arith
    ultimately show ?thesis using True by (simp only: simp_thms)
  next
    case False
    then have "\<not> (2 \<le> m \<and> (m - 2) mod 3 = 0)" by presburger
    with False show ?thesis by auto
  qed
  have "bit (Code_toCode k) m \<longleftrightarrow>
      (m mod 3 = 0 \<and> m < 63 \<and> bit (key_x k) (m div 3))
      \<or> (1 \<le> m \<and> (m - 1) mod 3 = 0 \<and> m - 1 < 63 \<and> bit (key_y k) ((m - 1) div 3))
      \<or> (2 \<le> m \<and> (m - 2) mod 3 = 0 \<and> m - 2 < 63 \<and> bit (key_z k) ((m - 2) div 3))"
    unfolding Code_toCode_def bit_or_iff bit_push_bit_iff splitBy3_bit
    using True by (auto simp add: possible_bit_word)
  then show ?thesis unfolding y z using True by simp
qed


lemma Code_of_Key_of_Code:
  assumes "normalised c"
  shows "Code_of_Key (Key_of_Code c) = c"
proof (rule bit_eqI)
  fix n
  assume "possible_bit TYPE(64 word) n"
  then have n: "n < 64" by (simp add: possible_bit_word)
  let ?k = "Key_of_Code c"
  have split: "bit (Code_of_Key ?k) n \<longleftrightarrow>
      (5 \<le> n \<and> bit (Code_toCode ?k) (n - 5)) \<or> (n < 5 \<and> bit c n)"
    unfolding Code_of_Key_def bit_or_iff bit_push_bit_iff Key_of_Code_bits(4) ucast_Code_depth_bit
    using n by (auto simp add: possible_bit_word)
  show "bit (Code_of_Key ?k) n = bit c n"
  proof (cases "n < 5")
    case True
    then show ?thesis unfolding split by simp
  next
    case False
    then have n5: "5 \<le> n" by simp
    define m where "m = n - 5"
    have nm: "n = m + 5" using n5 by (simp add: m_def)
    have m: "m < 59" using n nm by simp
    have d: "bit c n \<Longrightarrow> unat (Code_depth c) \<le> m div 3"
      using normalised_bit [OF assms n5] unfolding m_def by arith
    have j: "m div 3 < 21" "m < 63" "m < 64" using m by arith+
    consider "m mod 3 = 0" | "m mod 3 = 1" | "m mod 3 = 2" by arith
    then have "bit (Code_toCode ?k) m \<longleftrightarrow> bit c n"
    proof cases
      case 1
      then have "3 * (m div 3) + 5 = n" unfolding nm by arith
      with 1 d j show ?thesis unfolding Code_toCode_bit Key_of_Code_bits by auto
    next
      case 2
      then have "3 * (m div 3) + 6 = n" unfolding nm by arith
      with 2 d j show ?thesis unfolding Code_toCode_bit Key_of_Code_bits by auto
    next
      case 3
      then have "3 * (m div 3) + 7 = n" unfolding nm by arith
      with 3 d j show ?thesis unfolding Code_toCode_bit Key_of_Code_bits by auto
    qed
    then show ?thesis unfolding split using False n5 by (simp add: m_def)
  qed
qed


lemma word8_bit_less: "bit (w :: 8 word) n \<Longrightarrow> n < 8"
  using bit_imp_le_length [of w n] by simp

lemma Code_make_bit:
  "bit (Code_make m d) n \<longleftrightarrow>
     n < 64 \<and> (3 * unat d + 5 \<le> n \<and> bit m (n - 5) \<or> n < 8 \<and> bit d n)"
proof (cases "n < 64")
  case False
  then show ?thesis using word64_bit_beyond by blast
next
  case True
  have aux: "3 * unat d + 5 \<le> n \<Longrightarrow> 3 * unat d + (n - (3 * unat d + 5)) = n - 5" by simp
  show ?thesis
    unfolding Code_make_def bit_or_iff bit_push_bit_iff bit_drop_bit_eq
    using True by (auto simp add: bit_simps aux dest: word8_bit_less)
qed

lemma small_word_bit:
  fixes w :: "'a::len word"
  assumes "unat w < 2 ^ k" and "bit w n"
  shows "n < k"
proof -
  have "take_bit k (unat w) = unat w" using assms(1) by (simp add: take_bit_nat_eq_self)
  then have "take_bit k w = w" by (metis unsigned_take_bit_eq word_unat_eq_iff)
  with assms(2) have "bit (take_bit k w) n" by (simp only:)
  then show ?thesis by (simp only: bit_take_bit_iff)
qed

lemma child_sum_bit:
  assumes norm: "normalised c" and d0: "Code_depth c \<noteq> 0" and i: "i < 8"
  shows "bit (drop_bit 5 c + push_bit (3 * unat (Code_depth c - 1)) i) p \<longleftrightarrow>
     bit c (p + 5) \<or> (3 * unat (Code_depth c - 1) \<le> p \<and> p < 64 \<and> bit i (p - 3 * unat (Code_depth c - 1)))"
proof -
  let ?cd = "unat (Code_depth c - 1)"
  have cd: "unat (Code_depth c) = ?cd + 1"
    using d0 by (simp add: unat_minus_one unat_gt_0 Suc_leI)
  have ibits: "\<And>q. bit i q \<Longrightarrow> q < 3"
  proof -
    fix q assume "bit i q"
    from i have "unat i < 2 ^ 3" by (simp add: word_less_nat_alt)
    then show "q < 3" using \<open>bit i q\<close> by (rule small_word_bit)
  qed
  have disj: "\<And>n. \<not> bit (drop_bit 5 c) n \<or> \<not> bit (push_bit (3 * ?cd) i) n"
  proof -
    fix n
    show "\<not> bit (drop_bit 5 c) n \<or> \<not> bit (push_bit (3 * ?cd) i) n"
    proof (rule ccontr)
      assume "\<not> ?thesis"
      then have a: "bit c (n + 5)" and b: "3 * ?cd \<le> n" and e: "bit i (n - 3 * ?cd)"
        by (auto simp add: bit_simps add.commute)
      from normalised_bit [OF norm _ a] have "3 * (?cd + 1) \<le> n" unfolding cd by simp
      moreover from ibits [OF e] have "n < 3 * ?cd + 3" using b by arith
      ultimately show False by simp
    qed
  qed
  show ?thesis
    unfolding disjunctive_add [OF disj] bit_or_iff bit_push_bit_iff bit_drop_bit_eq
    by (auto simp add: possible_bit_word add.commute)
qed


lemma Code_child_bit:
  assumes norm: "normalised c" and d0: "Code_depth c \<noteq> 0" and i: "i < 8"
  shows "bit (Code_child c i) n \<longleftrightarrow>
     n < 64 \<and> (3 * unat (Code_depth c - 1) + 5 \<le> n
          \<and> (bit c n \<or> bit i (n - 5 - 3 * unat (Code_depth c - 1)))
        \<or> n < 8 \<and> bit (Code_depth c - 1) n)"
proof -
  let ?cd = "unat (Code_depth c - 1)"
  have eq: "Code_child c i = Code_make (drop_bit 5 c + push_bit (3 * ?cd) i) (Code_depth c - 1)"
    using d0 by (simp add: Code_child_def Let_def)
  have "3 * ?cd + 5 \<le> n \<Longrightarrow> n < 64 \<Longrightarrow>
      (bit c (n - 5 + 5) \<or> 3 * ?cd \<le> n - 5 \<and> n - 5 < 64 \<and> bit i (n - 5 - 3 * ?cd))
      \<longleftrightarrow> (bit c n \<or> bit i (n - 5 - 3 * ?cd))"
    by auto
  then show ?thesis
    unfolding eq Code_make_bit child_sum_bit [OF assms] by blast
qed

lemma depth_word_bits:
  fixes d :: depth_t
  assumes "unat d < 32" and "bit d n"
  shows "n < 5"
  using small_word_bit [of d 5 n] assms by simp

lemma Code_child_deeper:
  assumes norm: "normalised c" and d0: "0 < Code_depth c" and d19: "Code_depth c \<le> 19"
    and i: "i < 8"
  shows "Code_depth (Code_child c i) = Code_depth c - 1
     \<and> Code_index (Code_child c i) (Code_depth c - 1) = Some (unat i)
     \<and> Code_parent (Code_child c i) (Code_depth c) = c
     \<and> normalised (Code_child c i)"
proof -
  let ?d = "Code_depth c" and ?cd = "Code_depth c - 1"
  have dn0: "?d \<noteq> 0" using d0 by simp
  have ud: "unat ?d = unat ?cd + 1"
    using dn0 by (simp add: unat_minus_one unat_gt_0 Suc_leI)
  have ud19: "unat ?d \<le> 19" using d19 by (simp add: word_le_nat_alt)
  have ucd: "unat ?cd \<le> 18" using ud ud19 by simp
  note cb = Code_child_bit [OF norm dn0 i]
  have ibits: "\<And>q. bit i q \<Longrightarrow> q < 3"
  proof -
    fix q assume "bit i q"
    from i have "unat i < 2 ^ 3" by (simp add: word_less_nat_alt)
    then show "q < 3" using \<open>bit i q\<close> by (rule small_word_bit)
  qed
  have cdbits: "\<And>q. bit ?cd q \<Longrightarrow> q < 5"
    using depth_word_bits [of ?cd] ucd by simp
  have dbits: "\<And>q. bit ?d q \<Longrightarrow> q < 5"
    using depth_word_bits [of ?d] ud19 by simp
  have cnorm: "\<And>q. 5 \<le> q \<Longrightarrow> bit c q \<Longrightarrow> 3 * unat ?cd + 8 \<le> q"
    using normalised_bit [OF norm] unfolding ud by fastforce
  have depth: "Code_depth (Code_child c i) = ?cd"
  proof (rule bit_eqI)
    fix n
    show "bit (Code_depth (Code_child c i)) n = bit ?cd n"
      unfolding Code_depth_bit cb using cdbits [of n] by auto
  qed
  have index: "Code_index (Code_child c i) ?cd = Some (unat i)"
  proof -
    have "drop_bit (3 * unat ?cd + 5) (Code_child c i) AND 0x7 = i"
    proof (rule bit_eqI)
      fix n
      have "n < 3 \<Longrightarrow> \<not> bit c (3 * unat ?cd + 5 + n)"
        using cnorm [of "3 * unat ?cd + 5 + n"] by auto
      moreover have "n < 3 \<Longrightarrow> \<not> bit ?cd (3 * unat ?cd + 5 + n)"
        using cdbits [of "3 * unat ?cd + 5 + n"] by auto
      moreover have "n < 3 \<Longrightarrow> 3 * unat ?cd + 5 + n < 64" using ucd by simp
      ultimately show "bit (drop_bit (3 * unat ?cd + 5) (Code_child c i) AND 0x7) n = bit i n"
        unfolding mask3 bit_and_iff bit_mask_iff bit_drop_bit_eq o_def cb
        using ibits [of n] by (auto simp add: possible_bit_word)
    qed
    moreover have "3 * unat ?cd + 5 < 64" using ucd by simp
    ultimately show ?thesis by (simp only: Code_index_def if_True)
  qed
  have parent: "Code_parent (Code_child c i) ?d = c"
  proof (rule bit_eqI)
    fix n
    assume "possible_bit TYPE(64 word) n"
    then have n: "n < 64" by (simp add: possible_bit_word)
    have dlow: "n < 5 \<Longrightarrow> bit ?d n \<longleftrightarrow> bit c n" by (simp add: Code_depth_bit)
    have "3 * unat ?d + 5 \<le> n \<Longrightarrow> \<not> bit i (n - 5 - 3 * unat ?cd)"
      using ibits [of "n - 5 - 3 * unat ?cd"] unfolding ud by auto
    moreover have "3 * unat ?d + 5 \<le> n \<Longrightarrow> 3 * unat ?cd + 5 \<le> n \<and> n - 5 + 5 = n" unfolding ud by simp
    moreover have "\<not> 3 * unat ?d + 5 \<le> n \<Longrightarrow> 5 \<le> n \<Longrightarrow> \<not> bit c n"
      using cnorm [of n] unfolding ud by auto
    moreover have "5 \<le> n \<Longrightarrow> \<not> bit ?d n" using dbits [of n] by auto
    moreover have "3 * unat ?d + 5 \<le> n \<Longrightarrow> \<not> (n - 5 + 5 < 8 \<and> bit ?cd (n - 5 + 5))"
      using cdbits [of "n - 5 + 5"] by auto
    ultimately show "bit (Code_parent (Code_child c i) ?d) n = bit c n"
      unfolding Code_parent_def Code_make_bit bit_drop_bit_eq o_def cb
      using n dlow by (cases "n < 5") (auto simp add: add.commute)
  qed
  have "take_bit (3 * unat ?cd) (Code_code (Code_child c i)) = 0"
  proof (rule bit_eqI)
    fix n
    have "n < 3 * unat ?cd \<Longrightarrow> \<not> bit ?cd (5 + n)" using cdbits [of "5 + n"] by auto
    then show "bit (take_bit (3 * unat ?cd) (Code_code (Code_child c i))) n = bit (0 :: 64 word) n"
      unfolding bit_take_bit_iff Code_code_def bit_drop_bit_eq o_def cb by auto
  qed
  then have "normalised (Code_child c i)" unfolding normalised_def depth .
  with depth index parent show ?thesis by simp
qed

lemma Code_child_depth0: "Code_depth c = 0 \<Longrightarrow> Code_child c i = c"
  by (simp add: Code_child_def)

section \<open>Claims about codes and keys\<close>

text \<open>
  Claim C7. For every key component \<open>k\<close> in \<open>[0, 2^21)\<close> the portable branch of
  \<^verbatim>\<open>splitBy3\<close> returns the same word as the BMI2 branch (the bit deposit under the mask
  \<^verbatim>\<open>0x9249249249249249\<close>): bit \<open>j\<close> of \<open>k\<close> is bit \<open>3 * j\<close> of the result and every other bit
  is zero; and the portable \<^verbatim>\<open>get3Bits\<close> inverts it.
\<close>

theorem splitBy3_portable_eq_bmi2_and_inverse:
  assumes "k < 2 ^ 21"
  shows "splitBy3 k = splitBy3_bmi2 k
     \<and> (\<forall>n. bit (splitBy3 k) n \<longleftrightarrow> (n mod 3 = 0 \<and> n div 3 < 21 \<and> bit k (n div 3)))
     \<and> get3Bits (splitBy3 k) = k"
proof -
  have "bit (splitBy3 k) n \<longleftrightarrow> (n mod 3 = 0 \<and> n div 3 < 21 \<and> bit k (n div 3))" for n
  proof -
    have "n < 63 \<longleftrightarrow> n div 3 < 21" by arith
    then show ?thesis unfolding splitBy3_bit by simp
  qed
  with splitBy3_eq_bmi2 [OF assms] get3Bits_splitBy3 [OF assms] show ?thesis by simp
qed

theorem splitBy3_portable_eq_bmi2_and_inverse_witness:
  "(0x12345 :: key_t) < 2 ^ 21
     \<and> splitBy3 0x12345 = splitBy3_bmi2 0x12345
     \<and> (\<forall>n. bit (splitBy3 0x12345) n \<longleftrightarrow>
          (n mod 3 = 0 \<and> n div 3 < 21 \<and> bit (0x12345 :: key_t) (n div 3)))
     \<and> get3Bits (splitBy3 0x12345) = 0x12345"
proof -
  have h: "(0x12345 :: key_t) < 2 ^ 21" by simp
  from h splitBy3_portable_eq_bmi2_and_inverse [OF h] show ?thesis by (rule conjI)
qed

text \<open>
  Claim C2. Converting a code to its key and the key back to a code returns the code.
  A code carries its depth \<open>d\<close> in its low five bits and, being specified at that depth,
  has its low \<open>3 * d\<close> interleaved bits zero (\<^const>\<open>normalised\<close>); for such a code the
  round trip is the identity at every depth, so in particular at every depth up to the
  root depth of a map.
\<close>

theorem Code_of_Key_roundtrip:
  assumes "normalised c"
  shows "Code_of_Key (Key_of_Code c) = c"
  using assms by (rule Code_of_Key_of_Code)

theorem Code_of_Key_roundtrip_witness:
  "normalised 0x2A4003 \<and> Code_depth 0x2A4003 = 3 \<and> Code_of_Key (Key_of_Code 0x2A4003) = 0x2A4003"
proof -
  have h: "normalised 0x2A4003"
    by (simp add: normalised_def Code_depth_def Code_code_def)
  have "Code_depth 0x2A4003 = 3" by (simp add: Code_depth_def)
  with h Code_of_Key_roundtrip [OF h] show ?thesis by (simp only: simp_thms)
qed

text \<open>
  Claim C9 holds of the documented behaviour and fails on the code. \<^verbatim>\<open>child\<close> is documented
  to return the code of the specific child. At depth 0 it returns the code itself
  (\<open>Code_child_depth0\<close>) and for a code specified at a depth from 1 to 19 it returns the
  code one level deeper with the given slot (\<open>Code_child_deeper\<close>). At depth 20, a depth
  that maps of 21 and 22 depth levels have, the function overflows: every shift in it
  stays below 64, but the slot of the child would need bit 64 of the packed word and
  is lost. For the code of the key \<open>(0, 0, 0)\<close> at depth 20, \<^verbatim>\<open>child(4)\<close> returns a code of
  depth 19 whose slot at depth 19 is 0, not 4; it is the code that \<^verbatim>\<open>child(0)\<close> returns.
\<close>

theorem Code_child_slot_lost_at_depth_20:
  "Code_of_Key (Key_make 0 0 0 20) = 20
     \<and> Code_depth 20 = 20 \<and> normalised 20
     \<and> Code_depth (Code_child 20 4) = 19
     \<and> Code_index (Code_child 20 4) 19 = Some 0
     \<and> Code_child 20 4 = Code_child 20 0"
  by (simp add: Code_child_def Code_index_def Code_make_def Code_depth_def normalised_def
      Code_code_def Code_of_Key_def Code_toCode_def Key_make_def splitBy3_def)

section \<open>Bit fields, loops over children\<close>

declare shape.simps [simp del]
declare wf_node.simps [simp del]
declare descend.simps [simp del]
declare apply_node.simps [simp del]
declare applyAllRecurs.simps [simp del]
declare deleteChildren.simps [simp del]
declare propagateModifiedRecurs.simps [simp del]
declare resetModifiedRecurs.simps [simp del]



lemma Code_index_undefined:
  assumes "20 \<le> d"
  shows "Code_index c d = None"
proof -
  from assms have "20 \<le> unat d" by (simp add: word_le_nat_alt)
  then show ?thesis by (simp add: Code_index_def)
qed

lemma IndexField_bit_less: "bit (w :: IndexField) i \<Longrightarrow> i < 8"
  using bit_imp_le_length [of w i] by simp

lemma IndexField_all_iff: "(w :: IndexField) = - 1 \<longleftrightarrow> (\<forall>i<8. bit w i)"
  by (auto simp add: bit_eq_iff bit_simps)




lemma shape_LeafNode [simp]: "shape (LeafNode d m) depth \<longleftrightarrow> depth = 0 \<and> length d = 8"
  by (simp add: shape.simps)

lemma shape_InnerNode:
  "shape (InnerNode d m l c) depth \<longleftrightarrow>
     depth \<noteq> 0 \<and> length d = 8 \<and>
     (case c of None \<Rightarrow> True | Some cs \<Rightarrow> length cs = 8 \<and> (\<forall>i<8. shape (cs ! i) (depth - 1)))"
  by (subst shape.simps) (auto simp add: all_set_conv_all_nth split: option.splits)

lemma wf_LeafNode [simp]: "wf_node (LeafNode d m) depth \<longleftrightarrow> depth = 0 \<and> length d = 8"
  by (simp add: wf_node.simps)

lemma in_zip_upt:
  "length cs = n \<Longrightarrow> (i, ch) \<in> set (zip [0..<n] cs) \<longleftrightarrow> i < n \<and> ch = cs ! i"
proof
  assume "(i, ch) \<in> set (zip [0..<n] cs)"
  then obtain k where "[0..<n] ! k = i" "cs ! k = ch" "k < length [0..<n]" "k < length cs"
    by (auto simp add: in_set_zip)
  then show "i < n \<and> ch = cs ! i" by auto
next
  assume a: "length cs = n" "i < n \<and> ch = cs ! i"
  then have "[0..<n] ! i = fst (i, ch) \<and> cs ! i = snd (i, ch) \<and> i < length [0..<n] \<and> i < length cs"
    by simp
  then show "(i, ch) \<in> set (zip [0..<n] cs)" unfolding in_set_zip by blast
qed

lemma zip_upt_ball:
  "length cs = n \<Longrightarrow> (\<forall>(i, ch) \<in> set (zip [0..<n] cs). Q i ch) \<longleftrightarrow> (\<forall>i<n. Q i (cs ! i))"
  by (auto simp add: in_zip_upt)

lemma wf_InnerNode:
  "wf_node (InnerNode d m l c) depth \<longleftrightarrow>
     depth \<noteq> 0 \<and> length d = 8 \<and>
     (case c of
        None \<Rightarrow> l = - 1
      | Some cs \<Rightarrow> length cs = 8 \<and>
          (\<forall>i<8. if bit l i then shape (cs ! i) (depth - 1) else wf_node (cs ! i) (depth - 1)))"
proof (cases c)
  case None
  then show ?thesis by (subst wf_node.simps) simp
next
  case (Some cs)
  show ?thesis
  proof (cases "length cs = 8")
    case True
    show ?thesis
      by (subst wf_node.simps) (simp add: Some True zip_upt_ball [OF True])
  next
    case False
    then show ?thesis by (subst wf_node.simps) (simp add: Some)
  qed
qed

lemma wf_node_shape: "wf_node n depth \<Longrightarrow> shape n depth"
proof (induction n depth rule: wf_node.induct)
  case (1 node depth)
  show ?case
  proof (cases node)
    case (LeafNode d m)
    with 1 show ?thesis by simp
  next
    case (InnerNode d m l c)
    show ?thesis
    proof (cases c)
      case None
      with 1(2) InnerNode show ?thesis by (simp add: wf_InnerNode shape_InnerNode)
    next
      case (Some cs)
      from 1(2) InnerNode Some have d0: "depth \<noteq> 0" and len: "length cs = 8" "length d = 8"
        and ch: "\<And>i. i < 8 \<Longrightarrow> if bit l i then shape (cs ! i) (depth - 1) else wf_node (cs ! i) (depth - 1)"
        by (auto simp add: wf_InnerNode)
      have "shape (cs ! i) (depth - 1)" if "i < 8" for i
      proof (cases "bit l i")
        case True
        with ch [OF that] show ?thesis by simp
      next
        case False
        with ch [OF that] have w: "wf_node (cs ! i) (depth - 1)" by simp
        have "(i, cs ! i) \<in> set (zip [0..<8] cs)" using that len by (simp add: in_zip_upt)
        from 1(1) [OF InnerNode d0 Some this refl False w] show ?thesis .
      qed
      with d0 len InnerNode Some show ?thesis by (simp add: shape_InnerNode)
    qed
  qed
qed

section \<open>forIndices\<close>

lemma those_eq_Some_iff:
  "those xs = Some ys \<longleftrightarrow> length ys = length xs \<and> (\<forall>i<length xs. xs ! i = Some (ys ! i))"
proof (induction xs arbitrary: ys)
  case Nil
  show ?case by auto
next
  case (Cons x xs)
  show ?case
  proof (cases x)
    case None
    then show ?thesis by (auto intro: exI [of _ 0])
  next
    case (Some y)
    show ?thesis
    proof (cases "those xs")
      case None
      with Cons [of "tl ys"] have "\<not> (length (tl ys) = length xs \<and> (\<forall>i<length xs. xs ! i = Some (tl ys ! i)))"
        by simp
      then have "\<not> (length ys = length (x # xs) \<and> (\<forall>i<length (x # xs). (x # xs) ! i = Some (ys ! i)))"
        by (cases ys) (auto simp add: nth_Cons split: nat.splits)
      with None Some show ?thesis by simp
    next
      case (Some zs)
      with Cons [of zs] have zs: "length zs = length xs" "\<forall>i<length xs. xs ! i = Some (zs ! i)" by auto
      show ?thesis
      proof
        assume "those (x # xs) = Some ys"
        with \<open>x = Some y\<close> Some have "ys = y # zs" by simp
        with zs \<open>x = Some y\<close> show "length ys = length (x # xs) \<and> (\<forall>i<length (x # xs). (x # xs) ! i = Some (ys ! i))"
          by (auto simp add: nth_Cons split: nat.splits)
      next
        assume a: "length ys = length (x # xs) \<and> (\<forall>i<length (x # xs). (x # xs) ! i = Some (ys ! i))"
        then obtain y' ys' where ys: "ys = y' # ys'" by (cases ys) auto
        from a ys have "y' = y" using \<open>x = Some y\<close> by auto
        from a ys have "length ys' = length xs \<and> (\<forall>i<length xs. xs ! i = Some (ys' ! i))" by auto
        with Cons [of ys'] have "those xs = Some ys'" by simp
        with \<open>x = Some y\<close> ys \<open>y' = y\<close> show "those (x # xs) = Some ys" by simp
      qed
    qed
  qed
qed

lemma forIndices_eq_Some_iff:
  "forIndices ind g cs = Some cs' \<longleftrightarrow>
     length cs' = length cs \<and>
     (\<forall>i<length cs. if bit ind i then g (cs ! i) = Some (cs' ! i) else cs' ! i = cs ! i)"
  unfolding forIndices_def those_eq_Some_iff by (auto simp add: Ball_def)

lemma forIndices_Some_ex:
  assumes "\<And>i. i < length cs \<Longrightarrow> bit ind i \<Longrightarrow> \<exists>c'. g (cs ! i) = Some c'"
  shows "\<exists>cs'. forIndices ind g cs = Some cs'"
proof -
  let ?cs' = "map (\<lambda>i. if bit ind i then the (g (cs ! i)) else cs ! i) [0..<length cs]"
  have "forIndices ind g cs = Some ?cs'"
    unfolding forIndices_eq_Some_iff using assms by fastforce
  then show ?thesis ..
qed



section \<open>Children of well-formed nodes\<close>

lemma shape_kind:
  assumes "shape n depth"
  shows "depth = 0 \<Longrightarrow> \<exists>d m. n = LeafNode d m" and "depth \<noteq> 0 \<Longrightarrow> \<exists>d m l c. n = InnerNode d m l c"
  using assms by (cases n; simp add: shape_InnerNode)+

lemma wf_kind:
  assumes "wf_node n depth"
  shows "depth = 0 \<Longrightarrow> \<exists>d m. n = LeafNode d m" and "depth \<noteq> 0 \<Longrightarrow> \<exists>d m l c. n = InnerNode d m l c"
  using shape_kind [OF wf_node_shape [OF assms]] by blast+

lemma wf_children:
  assumes "wf_node (InnerNode d m l c) depth" and "i < 8" and "\<not> bit l i"
  shows "\<exists>cs. c = Some cs \<and> length cs = 8 \<and> wf_node (cs ! i) (depth - 1)"
proof (cases c)
  case None
  with assms(1) have "l = - 1" by (simp add: wf_InnerNode)
  with assms(2,3) show ?thesis by (simp add: IndexField_all_iff)
next
  case (Some cs)
  with assms show ?thesis by (auto simp add: wf_InnerNode)
qed

lemma wf_innerChild:
  assumes "wf_node (InnerNode d m l c) depth" and "i < 8" and "\<not> bit l i" and "depth \<noteq> 1"
  shows "\<exists>ch. innerChild (InnerNode d m l c) i = Some ch \<and> wf_node ch (depth - 1)
           \<and> blockAt (InnerNode d m l c) [i] = Some ch"
proof -
  from wf_children [OF assms(1-3)] obtain cs where
    cs: "c = Some cs" "length cs = 8" "wf_node (cs ! i) (depth - 1)" by blast
  from assms(4) have "depth - 1 \<noteq> 0" by simp
  from wf_kind(2) [OF cs(3) this] obtain d' m' l' c' where "cs ! i = InnerNode d' m' l' c'" by blast
  with cs assms(2) show ?thesis by simp
qed

lemma wf_leafChild:
  assumes "wf_node (InnerNode d m l c) 1" and "i < 8" and "\<not> bit l i"
  shows "\<exists>ch. leafChild (InnerNode d m l c) i = Some ch \<and> wf_node ch 0
           \<and> blockAt (InnerNode d m l c) [i] = Some ch"
proof -
  from wf_children [OF assms(1-3)] obtain cs where
    cs: "c = Some cs" "length cs = 8" "wf_node (cs ! i) (1 - 1)" by blast
  from wf_kind(1) [OF cs(3)] obtain d' m' where "cs ! i = LeafNode d' m'" by auto
  with cs assms(2) show ?thesis by simp
qed


section \<open>Lookup by code\<close>




lemma code_path_same [simp]: "code_path code d d = []"
  by (simp add: code_path_def)





lemma wf_tree_rootDepth:
  assumes "wf_tree t"
  shows "2 \<le> rootDepth t" and "rootDepth t \<le> 21" and "wf_node (root t) (rootDepth t)"
proof -
  from assms have a: "3 \<le> depth_levels t" "depth_levels t \<le> 22"
    by (simp_all add: wf_tree_def minDepthLevels_def maxDepthLevels_def)
  show "2 \<le> rootDepth t" unfolding rootDepth_def using a by unat_arith
  show "rootDepth t \<le> 21" unfolding rootDepth_def using a by unat_arith
  show "wf_node (root t) (rootDepth t)" using assms by (simp add: wf_tree_def)
qed


text \<open>
  The walk on the small map: after the write at \<open>ex_code0\<close> the lookup of \<open>ex_code0\<close> goes
  down three blocks to the leaf block of the slots 0, 5, 3, and the lookup of \<open>ex_code1\<close>
  stops in the block below the root, at the unsplit slot 1 of depth 2.
\<close>

lemma find_on_small_map:
  "find ex_t1 ex_code0 = Some (Node_make [0, 5, 3] ex_code0 0)
     \<and> find ex_t1 ex_code1 = Some (Node_make [0] ex_code1 2)
     \<and> code_path ex_code0 3 0 = [0, 5, 3] \<and> spec_index ex_code0 0 = 6
     \<and> code_path ex_code1 3 2 = [0] \<and> spec_index ex_code1 2 = 1"
proof -
  have c: "ex_code0 = 11200" "ex_code1 = 3008"
    by (simp_all add: ex_code0_def ex_code1_def Code_make_def)
  have "find ex_t1 ex_code0 = Some (Node_make [0, 5, 3] ex_code0 0)" by code_simp
  moreover have "find ex_t1 ex_code1 = Some (Node_make [0] ex_code1 2)" by code_simp
  moreover have "code_path ex_code0 3 0 = [0, 5, 3]" "code_path ex_code1 3 2 = [0]"
    by (simp_all add: code_path_def spec_index_def c upt_rec)
  moreover have "spec_index ex_code0 0 = 6" "spec_index ex_code1 2 = 1"
    by (simp_all add: spec_index_def c)
  ultimately show ?thesis by simp
qed

text \<open>
  From root depth 20 on, that is with 21 or 22 depth levels, the walk has no defined
  result: its first call of \<^verbatim>\<open>index\<close> shifts by 65 or more.
\<close>

lemma descend_undefined_from_depth_20:
  assumes "20 \<le> depth"
  shows "descend node path depth code = None"
  by (subst descend.simps) (simp add: Code_index_undefined [OF assms] split: OctreeNode.split)

lemma find_undefined_from_21_levels:
  assumes "20 \<le> rootDepth t"
  shows "find t code = None"
  by (simp add: find_def leafNodeAndDepth_def descend_undefined_from_depth_20 [OF assms])

section \<open>The invariant under the operations\<close>

lemma inv_LeafNode [simp]: "inv_node b (LeafNode d m) depth \<longleftrightarrow> depth = 0 \<and> length d = 8"
  by (simp add: inv_node_def)

lemma inv_InnerNode:
  "inv_node b (InnerNode d m l c) depth \<longleftrightarrow>
     depth \<noteq> 0 \<and> length d = 8 \<and>
     (case c of
        None \<Rightarrow> b \<longrightarrow> l = - 1
      | Some cs \<Rightarrow> length cs = 8 \<and> (\<forall>i<8. inv_node (b \<and> \<not> bit l i) (cs ! i) (depth - 1)))"
  by (cases b) (auto simp add: inv_node_def wf_InnerNode shape_InnerNode split: option.splits)

lemma inv_weaken: "inv_node b n depth \<Longrightarrow> inv_node False n depth"
  by (cases b) (simp_all add: inv_node_def wf_node_shape)

lemma inv_weaken': "inv_node b n depth \<Longrightarrow> inv_node (b \<and> b') n depth"
  by (cases b; cases b') (simp_all add: inv_weaken)

lemma inv_kind:
  assumes "inv_node b n depth"
  shows "depth = 0 \<Longrightarrow> \<exists>d m. n = LeafNode d m" and "depth \<noteq> 0 \<Longrightarrow> \<exists>d m l c. n = InnerNode d m l c"
  using shape_kind [of n depth] inv_weaken [OF assms] by (simp_all add: inv_node_def)

lemma inv_clear: "inv_node False n depth \<Longrightarrow> inv_node False (clear P n) depth"
  by (cases n) (simp_all add: clear_def inv_node_def shape_InnerNode)

lemma inv_setModifiedAll [simp]: "inv_node b (setModifiedAll n v) depth \<longleftrightarrow> inv_node b n depth"
  by (cases n) (simp_all add: inv_InnerNode)

lemma inv_setModifiedBit [simp]: "inv_node b (setModifiedBit n i v) depth \<longleftrightarrow> inv_node b n depth"
  by (cases n) (simp_all add: inv_InnerNode)

lemma depth_minus_one_zero: "depth - 1 = 0 \<longleftrightarrow> depth = (1 :: depth_t)"
  by auto

lemma forIndices_length: "forIndices ind g cs = Some cs' \<Longrightarrow> length cs' = length cs"
  by (simp add: forIndices_eq_Some_iff)

lemma forIndices_nth:
  assumes "forIndices ind g cs = Some cs'" and "i < length cs"
  shows "bit ind i \<Longrightarrow> g (cs ! i) = Some (cs' ! i)" and "\<not> bit ind i \<Longrightarrow> cs' ! i = cs ! i"
  using assms by (auto simp add: forIndices_eq_Some_iff split: if_splits)

section \<open>Deleting children\<close>

lemma deleteLeafChildren_char:
  assumes "deleteLeafChildren P ap (InnerNode d m l c) ind manual = Some n'"
  shows "\<exists>c'. n' = InnerNode d m (l OR ind) c'
     \<and> (c' = None \<longrightarrow> c = None \<or> l OR ind = - 1)
     \<and> (\<forall>cs'. c' = Some cs' \<longrightarrow> (\<exists>cs. c = Some cs \<and> length cs' = length cs
           \<and> (\<forall>i<length cs. cs' ! i = cs ! i
                 \<or> bit ind i \<and> \<not> bit l i \<and> (\<exists>d' m'. cs ! i = LeafNode d' m' \<and> cs' ! i = clear P (cs ! i)))))"
proof (cases "ind AND NOT l = 0")
  case True
  then have "l OR ind = l"
    by (auto simp add: bit_eq_iff bit_simps)
  with True assms show ?thesis
    by (cases c) (auto simp add: deleteLeafChildren_def Let_def)
next
  case False
  with assms obtain cs cs' where c: "c = Some cs"
    and f: "forIndices (ind AND NOT l)
         (\<lambda>ch. case ch of LeafNode d' m' \<Rightarrow> Some (clear P ch) | InnerNode d' m' l' c' \<Rightarrow> None) cs = Some cs'"
    and n': "n' = InnerNode d m (l OR ind) (if l OR ind = - 1 \<and> (manual \<or> ap) then None else Some cs')"
    by (auto simp add: deleteLeafChildren_def Let_def split: option.splits)
  from f have len: "length cs' = length cs" by (rule forIndices_length)
  have el: "cs' ! i = cs ! i
      \<or> bit ind i \<and> \<not> bit l i \<and> (\<exists>d' m'. cs ! i = LeafNode d' m' \<and> cs' ! i = clear P (cs ! i))"
    if "i < length cs" for i
  proof (cases "bit (ind AND NOT l) i")
    case False
    from forIndices_nth(2) [OF f that False] show ?thesis by simp
  next
    case True
    then have b: "bit ind i" "\<not> bit l i" by (simp_all add: bit_simps)
    from forIndices_nth(1) [OF f that True] b show ?thesis
      by (cases "cs ! i") auto
  qed
  show ?thesis using c n' len el by auto
qed

lemma inv_True [simp]: "inv_node True n depth \<longleftrightarrow> wf_node n depth"
  and inv_False [simp]: "inv_node False n depth \<longleftrightarrow> shape n depth"
  by (simp_all add: inv_node_def)

lemma wf_setModifiedAll [simp]: "wf_node (setModifiedAll n v) depth \<longleftrightarrow> wf_node n depth"
  using inv_setModifiedAll [of True n v depth] by (simp only: inv_True)

lemma wf_setModifiedBit [simp]: "wf_node (setModifiedBit n i v) depth \<longleftrightarrow> wf_node n depth"
  using inv_setModifiedBit [of True n i v depth] by (simp only: inv_True)

lemma shape_setModifiedAll [simp]: "shape (setModifiedAll n v) depth \<longleftrightarrow> shape n depth"
  using inv_setModifiedAll [of False n v depth] by (simp only: inv_False)

lemma shape_setModifiedBit [simp]: "shape (setModifiedBit n i v) depth \<longleftrightarrow> shape n depth"
  using inv_setModifiedBit [of False n i v depth] by (simp only: inv_False)

lemma inv_setData: "inv_node b n depth \<Longrightarrow> length v = 8 \<Longrightarrow> inv_node b (setData n v) depth"
  by (cases n) (simp_all add: inv_InnerNode)

lemma inv_data_length: "inv_node b n depth \<Longrightarrow> length (data n) = 8"
  by (cases n) (simp_all add: inv_InnerNode)






lemma inv_children_update:
  assumes inv: "inv_node b (InnerNode d m l (Some cs)) depth"
    and f: "forIndices ind g cs = Some cs'"
    and g: "\<And>i. i < 8 \<Longrightarrow> bit ind i \<Longrightarrow> g (cs ! i) = Some (cs' ! i)
              \<Longrightarrow> inv_node (b \<and> \<not> bit l i) (cs ! i) (depth - 1)
              \<Longrightarrow> inv_node (b \<and> \<not> bit l' i) (cs' ! i) (depth - 1)"
    and l': "\<And>i. i < 8 \<Longrightarrow> \<not> bit ind i \<Longrightarrow> bit l i \<Longrightarrow> bit l' i"
  shows "inv_node b (InnerNode d m' l' (Some cs')) depth"
proof -
  from inv have d0: "depth \<noteq> 0" and len: "length d = 8" "length cs = 8"
    and ch: "\<And>i. i < 8 \<Longrightarrow> inv_node (b \<and> \<not> bit l i) (cs ! i) (depth - 1)"
    by (simp_all add: inv_InnerNode)
  from f have len': "length cs' = 8" using len(2) by (simp add: forIndices_length)
  have "inv_node (b \<and> \<not> bit l' i) (cs' ! i) (depth - 1)" if i: "i < 8" for i
  proof (cases "bit ind i")
    case True
    from forIndices_nth(1) [OF f _ True] i len(2) have "g (cs ! i) = Some (cs' ! i)" by simp
    from g [OF i True this ch [OF i]] show ?thesis .
  next
    case False
    from forIndices_nth(2) [OF f _ False] i len(2) have e: "cs' ! i = cs ! i" by simp
    show ?thesis
    proof (cases "b \<and> \<not> bit l' i")
      case True
      with l' [OF i False] have "b \<and> \<not> bit l i" by blast
      with ch [OF i] True show ?thesis by (simp add: e)
    next
      case False
      then have "(b \<and> \<not> bit l' i) = False" by simp
      with inv_weaken [OF ch [OF i]] show ?thesis by (simp only: e)
    qed
  qed
  with d0 len len' show ?thesis by (simp add: inv_InnerNode)
qed

section \<open>Deleting children\<close>

lemma new_leaf_bits:
  "bit (ind AND NOT l) i \<longleftrightarrow> bit ind i \<and> \<not> bit l i" for ind l :: IndexField
  by (auto simp add: bit_simps dest: IndexField_bit_less)

lemma or_bits: "bit (l OR ind) i \<longleftrightarrow> bit l i \<or> bit ind i" for ind l :: IndexField
  by (simp add: bit_simps)

lemma new_leaf_zero: "ind AND NOT l = 0 \<Longrightarrow> l OR ind = l" for ind l :: IndexField
  by (rule bit_eqI) (auto simp add: bit_eq_iff bit_simps)

lemma inv_null_children:
  assumes "inv_node b (InnerNode d m l c) depth"
  shows "inv_node b (InnerNode d m' (- 1) None) depth"
  using assms by (simp add: inv_InnerNode)

lemma deleteLeafChildren_inv:
  assumes inv: "inv_node b n depth" and del: "deleteLeafChildren P ap n ind manual = Some n'"
  shows "inv_node b n' depth"
proof (cases n)
  case (LeafNode d m)
  with del show ?thesis by (simp add: deleteLeafChildren_def)
next
  case (InnerNode d m l c)
  show ?thesis
  proof (cases "ind AND NOT l = 0")
    case True
    with del inv InnerNode show ?thesis by (simp add: deleteLeafChildren_def)
  next
    case False
    with del InnerNode obtain cs cs' where c: "c = Some cs"
      and f: "forIndices (ind AND NOT l)
           (\<lambda>ch. case ch of LeafNode d' m' \<Rightarrow> Some (clear P ch) | InnerNode d' m' l' c' \<Rightarrow> None) cs = Some cs'"
      and n': "n' = InnerNode d m (l OR ind) (if l OR ind = - 1 \<and> (manual \<or> ap) then None else Some cs')"
      by (auto simp add: deleteLeafChildren_def Let_def split: option.splits)
    have "inv_node b (InnerNode d m (l OR ind) (Some cs')) depth"
      using inv [unfolded InnerNode c] f
    proof (rule inv_children_update)
      fix i
      assume "i < 8" "bit (ind AND NOT l) i"
        and g: "(case cs ! i of LeafNode d' m' \<Rightarrow> Some (clear P (cs ! i)) | InnerNode d' m' l' c' \<Rightarrow> None)
                 = Some (cs' ! i)"
        and ci: "inv_node (b \<and> \<not> bit l i) (cs ! i) (depth - 1)"
      from \<open>bit (ind AND NOT l) i\<close> have "(b \<and> \<not> bit (l OR ind) i) = False"
        by (simp add: new_leaf_bits or_bits)
      moreover from g have "cs' ! i = clear P (cs ! i)" by (cases "cs ! i") simp_all
      moreover have "inv_node False (clear P (cs ! i)) (depth - 1)"
        using inv_weaken [OF ci] by (rule inv_clear)
      ultimately show "inv_node (b \<and> \<not> bit (l OR ind) i) (cs' ! i) (depth - 1)" by (simp only:)
    next
      fix i
      assume "bit l i"
      then show "bit (l OR ind) i" by (simp add: or_bits)
    qed
    moreover from this have "inv_node b (InnerNode d m (- 1) None) depth"
      by (rule inv_null_children)
    ultimately show ?thesis by (simp add: n')
  qed
qed

lemma deleteChildren_inv:
  assumes "inv_node b n depth" and "deleteChildren P ap n ind depth manual = Some n'"
  shows "inv_node b n' depth"
  using assms
proof (induction P ap n ind depth manual arbitrary: b n' rule: deleteChildren.induct)
  case (1 P ap node indices depth manual)
  show ?case
  proof (cases "1 = depth")
    case True
    with 1(3) have "deleteLeafChildren P ap node indices manual = Some n'"
      by (subst (asm) deleteChildren.simps) simp
    with 1(2) show ?thesis by (rule deleteLeafChildren_inv)
  next
    case d1: False
    show ?thesis
    proof (cases node)
      case (LeafNode d m)
      with 1(3) d1 show ?thesis by (subst (asm) deleteChildren.simps) simp
    next
      case (InnerNode d m l c)
      show ?thesis
      proof (cases "indices AND NOT l = 0")
        case True
        with 1(2,3) d1 InnerNode show ?thesis by (subst (asm) deleteChildren.simps) simp
      next
        case False
        let ?g = "\<lambda>ch. case ch of
                   LeafNode d' m' \<Rightarrow> None
                 | InnerNode d' m' l' c' \<Rightarrow>
                     (case deleteChildren P ap ch (NOT l') (depth - 1) manual of
                        None \<Rightarrow> None
                      | Some ch' \<Rightarrow> Some (clear P ch'))"
        from 1(3) d1 InnerNode False obtain cs cs' where c: "c = Some cs"
          and f: "forIndices (indices AND NOT l) ?g cs = Some cs'"
          and n': "n' = InnerNode d m (l OR indices)
                     (if l OR indices = - 1 \<and> (manual \<or> ap) then None else Some cs')"
          by (subst (asm) deleteChildren.simps) (auto simp add: Let_def split: option.splits)
        have "inv_node b (InnerNode d m (l OR indices) (Some cs')) depth"
          using 1(2) [unfolded InnerNode c] f
        proof (rule inv_children_update)
          fix i
          assume "i < 8" "bit (indices AND NOT l) i" and g: "?g (cs ! i) = Some (cs' ! i)"
            and ci: "inv_node (b \<and> \<not> bit l i) (cs ! i) (depth - 1)"
          from \<open>bit (indices AND NOT l) i\<close> have "(b \<and> \<not> bit (l OR indices) i) = False"
            by (simp add: new_leaf_bits or_bits)
          moreover from g obtain d' m' l' c' ch' where ch: "cs ! i = InnerNode d' m' l' c'"
            and r: "deleteChildren P ap (cs ! i) (NOT l') (depth - 1) manual = Some ch'"
            and e: "cs' ! i = clear P ch'"
            by (cases "cs ! i") (auto split: option.splits)
          from 1(1) [OF d1 InnerNode refl False c ch ci r]
          have "inv_node (b \<and> \<not> bit l i) ch' (depth - 1)" .
          then have "inv_node False (clear P ch') (depth - 1)"
            using inv_weaken inv_clear by blast
          ultimately show "inv_node (b \<and> \<not> bit (l OR indices) i) (cs' ! i) (depth - 1)"
            by (simp only: e)
        next
          fix i
          assume "bit l i"
          then show "bit (l OR indices) i" by (simp add: or_bits)
        qed
        moreover from this have "inv_node b (InnerNode d m (- 1) None) depth"
          by (rule inv_null_children)
        ultimately show ?thesis by (simp add: n')
      qed
    qed
  qed
qed

lemma wf_new_leaf_children:
  assumes "wf_node (InnerNode d m l c) depth" and "ind AND NOT l \<noteq> 0"
  shows "\<exists>cs. c = Some cs \<and> length cs = 8
     \<and> (\<forall>i<8. bit (ind AND NOT l) i \<longrightarrow> wf_node (cs ! i) (depth - 1))"
proof -
  from assms(2) obtain i where i: "bit (ind AND NOT l) i" by (auto simp add: bit_eq_iff)
  then have "i < 8" "\<not> bit l i" by (auto simp add: new_leaf_bits dest: IndexField_bit_less)
  from wf_children [OF assms(1) this] obtain cs where cs: "c = Some cs" "length cs = 8" by blast
  have "wf_node (cs ! j) (depth - 1)" if "j < 8" "bit (ind AND NOT l) j" for j
    using wf_children [OF assms(1) that(1)] that(2) cs by (auto simp add: new_leaf_bits)
  with cs show ?thesis by blast
qed

lemma deleteLeafChildren_total:
  assumes "wf_node n 1"
  shows "\<exists>n'. deleteLeafChildren P ap n ind manual = Some n'"
proof -
  from wf_kind(2) [OF assms] obtain d m l c where n: "n = InnerNode d m l c" by auto
  show ?thesis
  proof (cases "ind AND NOT l = 0")
    case True
    then show ?thesis by (simp add: deleteLeafChildren_def n)
  next
    case False
    from wf_new_leaf_children [OF assms [unfolded n] False] obtain cs where
      cs: "c = Some cs" "length cs = 8"
        "\<And>i. i < 8 \<Longrightarrow> bit (ind AND NOT l) i \<Longrightarrow> wf_node (cs ! i) (1 - 1)" by blast
    have "\<exists>cs'. forIndices (ind AND NOT l)
           (\<lambda>ch. case ch of LeafNode d' m' \<Rightarrow> Some (clear P ch) | InnerNode d' m' l' c' \<Rightarrow> None) cs = Some cs'"
    proof (rule forIndices_Some_ex)
      fix i
      assume "i < length cs" "bit (ind AND NOT l) i"
      with cs have "wf_node (cs ! i) 0" by simp
      from wf_kind(1) [OF this] obtain d' m' where "cs ! i = LeafNode d' m'" by auto
      then show "\<exists>c'. (case cs ! i of LeafNode d' m' \<Rightarrow> Some (clear P (cs ! i))
                        | InnerNode d' m' l' c' \<Rightarrow> None) = Some c'" by simp
    qed
    then show ?thesis using False by (auto simp add: deleteLeafChildren_def n cs(1) Let_def)
  qed
qed

lemma deleteChildren_total:
  assumes "wf_node n depth" and "depth \<noteq> 0"
  shows "\<exists>n'. deleteChildren P ap n ind depth manual = Some n'"
  using assms
proof (induction P ap n ind depth manual rule: deleteChildren.induct)
  case (1 P ap node indices depth manual)
  show ?case
  proof (cases "1 = depth")
    case True
    with 1(2) deleteLeafChildren_total [of node P ap indices manual] show ?thesis
      by (subst deleteChildren.simps) simp
  next
    case d1: False
    from wf_kind(2) [OF 1(2,3)] obtain d m l c where n: "node = InnerNode d m l c" by auto
    show ?thesis
    proof (cases "indices AND NOT l = 0")
      case True
      with d1 n show ?thesis by (subst deleteChildren.simps) simp
    next
      case False
      let ?g = "\<lambda>ch. case ch of
                 LeafNode d' m' \<Rightarrow> None
               | InnerNode d' m' l' c' \<Rightarrow>
                   (case deleteChildren P ap ch (NOT l') (depth - 1) manual of
                      None \<Rightarrow> None
                    | Some ch' \<Rightarrow> Some (clear P ch'))"
      from wf_new_leaf_children [OF 1(2) [unfolded n] False] obtain cs where
        cs: "c = Some cs" "length cs = 8"
          "\<And>i. i < 8 \<Longrightarrow> bit (indices AND NOT l) i \<Longrightarrow> wf_node (cs ! i) (depth - 1)" by blast
      have "\<exists>cs'. forIndices (indices AND NOT l) ?g cs = Some cs'"
      proof (rule forIndices_Some_ex)
        fix i
        assume "i < length cs" "bit (indices AND NOT l) i"
        with cs have w: "wf_node (cs ! i) (depth - 1)" by simp
        from d1 have d10: "depth - 1 \<noteq> 0" by auto
        from wf_kind(2) [OF w this] obtain d' m' l' c' where ch: "cs ! i = InnerNode d' m' l' c'"
          by auto
        from 1(1) [OF d1 n refl False cs(1) ch w d10] obtain ch' where
          "deleteChildren P ap (cs ! i) (NOT l') (depth - 1) manual = Some ch'" by blast
        then show "\<exists>c'. ?g (cs ! i) = Some c'" by (simp add: ch)
      qed
      then obtain cs' where "forIndices (indices AND NOT l) ?g cs = Some cs'" by blast
      then show ?thesis using False d1
        by (subst deleteChildren.simps) (simp add: n cs(1) Let_def)
    qed
  qed
qed

section \<open>Pruning and updating a node\<close>

lemma wf_child:
  assumes "wf_node (InnerNode d m l c) depth" and "i < 8" and "\<not> bit l i"
  shows "\<exists>cs. c = Some cs \<and> length cs = 8
     \<and> child (InnerNode d m l c) i depth = Some (cs ! i) \<and> wf_node (cs ! i) (depth - 1)"
proof -
  from wf_children [OF assms] obtain cs where
    cs: "c = Some cs" "length cs = 8" "wf_node (cs ! i) (depth - 1)" by blast
  show ?thesis
  proof (cases "1 = depth")
    case True
    with cs(3) have "wf_node (cs ! i) 0" by auto
    from wf_kind(1) [OF this] obtain d' m' where "cs ! i = LeafNode d' m'" by auto
    with cs assms(2) True show ?thesis by (simp add: child_def)
  next
    case False
    then have "depth - 1 \<noteq> 0" by auto
    from wf_kind(2) [OF cs(3) this] obtain d' m' l' c' where "cs ! i = InnerNode d' m' l' c'" by auto
    with cs assms(2) False show ?thesis by (simp add: child_def)
  qed
qed

lemma child_setData [simp]: "child (setData n v) i depth = child n i depth"
  by (cases n; cases "children n") (simp_all add: child_def)

lemma isCollapsible_bits:
  assumes "isCollapsible P n ind depth = Some ind'"
  shows "bit ind' i \<Longrightarrow> bit ind i"
proof -
  have b: "bit (fold (\<lambda>i w. if p i then set_bit i w else w) js w0) i
      \<longleftrightarrow> bit w0 i \<or> (i \<in> set js \<and> p i \<and> i < 8)" for p js and w0 :: IndexField
    by (induction js arbitrary: w0) (auto simp add: bit_simps)
  assume "bit ind' i"
  with assms show "bit ind i"
    by (auto simp add: isCollapsible_def bitsWhere_def b split: if_splits)
qed

lemma isCollapsible_total:
  assumes "wf_node n depth" and "depth \<noteq> 0" and "\<And>i. i < 8 \<Longrightarrow> bit ind i \<Longrightarrow> \<not> bit (leaf n) i"
  shows "\<exists>ind'. isCollapsible P n ind depth = Some ind'"
proof -
  from wf_kind(2) [OF assms(1,2)] obtain d m l c where n: "n = InnerNode d m l c" by auto
  have "child n i depth \<noteq> None" if "i < 8" "bit ind i" for i
    using wf_child [OF assms(1) [unfolded n] that(1)] assms(3) [OF that] by (auto simp add: n)
  then show ?thesis by (simp add: isCollapsible_def)
qed

lemma prune_inv:
  assumes "inv_node b n depth" and "prune P ap n ind depth = Some n'"
  shows "inv_node b n' depth"
  using assms deleteChildren_inv [of b n depth P ap _ False n']
  by (auto simp add: prune_def split: option.splits if_splits)

lemma prune_total:
  assumes "wf_node n depth" and "depth \<noteq> 0" and "\<And>i. i < 8 \<Longrightarrow> bit ind i \<Longrightarrow> \<not> bit (leaf n) i"
  shows "\<exists>n'. prune P ap n ind depth = Some n'"
proof -
  from isCollapsible_total [OF assms, where P = P] obtain ind' where
    "isCollapsible P n ind depth = Some ind'" by blast
  with deleteChildren_total [OF assms(1,2), where P = P and ap = ap and ind = ind' and manual = False]
  show ?thesis
    by (auto simp add: prune_def)
qed

lemma updateNode_inv:
  assumes "inv_node b n depth" and "updateNode P ap n ind depth = Some n'"
  shows "inv_node b n' depth"
proof -
  let ?v = "map (\<lambda>i. if bit ind i
                      then (case child n i depth of
                              None \<Rightarrow> data n ! i
                            | Some ch \<Rightarrow> aggregate P (data ch))
                      else data n ! i) [0..<length (data n)]"
  from assms(2) have p: "prune P ap (setData n ?v) ind depth = Some n'"
    by (simp add: updateNode_def split: if_splits)
  have "length ?v = 8" using inv_data_length [OF assms(1)] by simp
  with assms(1) have "inv_node b (setData n ?v) depth" by (rule inv_setData)
  then show ?thesis using p by (rule prune_inv)
qed

lemma leaf_setData [simp]: "leaf (setData (InnerNode d m l c) v) = l"
  by simp

lemma updateNode_total:
  assumes "wf_node n depth" and "depth \<noteq> 0" and "\<And>i. i < 8 \<Longrightarrow> bit ind i \<Longrightarrow> \<not> bit (leaf n) i"
  shows "\<exists>n'. updateNode P ap n ind depth = Some n'"
proof -
  let ?v = "map (\<lambda>i. if bit ind i
                      then (case child n i depth of
                              None \<Rightarrow> data n ! i
                            | Some ch \<Rightarrow> aggregate P (data ch))
                      else data n ! i) [0..<length (data n)]"
  from wf_kind(2) [OF assms(1,2)] obtain d m l c where n: "n = InnerNode d m l c" by auto
  have ch: "child n i depth \<noteq> None" if "i < 8" "bit ind i" for i
    using wf_child [OF assms(1) [unfolded n] that(1)] assms(3) [OF that] by (auto simp add: n)
  have "length ?v = 8" using inv_data_length [of True n depth] assms(1) by simp
  with assms(1) have "inv_node True (setData n ?v) depth" using inv_setData [of True n depth ?v]
    by simp
  then have "wf_node (setData n ?v) depth" by simp
  moreover have "\<not> bit (leaf (setData n ?v)) i" if "i < 8" "bit ind i" for i
    using assms(3) [OF that] by (simp add: n)
  ultimately obtain n' where "prune P ap (setData n ?v) ind depth = Some n'"
    using prune_total [OF _ assms(2), where n = "setData n ?v" and ind = ind and P = P and ap = ap]
    by blast
  with ch show ?thesis by (simp add: updateNode_def)
qed

section \<open>Propagation\<close>

lemma inv_modified: "inv_node b (InnerNode d m l c) depth \<Longrightarrow> inv_node b (InnerNode d m' l c) depth"
  by (simp add: inv_InnerNode)

lemma propagateModifiedRecurs_children:
  assumes "propagateModifiedRecurs P ap keep (InnerNode d m l c) depth md = Some n'"
    and "m AND NOT l \<noteq> 0"
  shows "\<exists>c'.
    (if 1 = depth then
       (if keep then c' = c
        else \<exists>cs cs'. c = Some cs \<and> c' = Some cs' \<and>
          forIndices (m AND NOT l)
            (\<lambda>ch. case ch of LeafNode d' m' \<Rightarrow> Some (LeafNode d' 0)
                   | InnerNode d' m' l' c' \<Rightarrow> None) cs = Some cs')
     else \<exists>cs cs'. c = Some cs \<and> c' = Some cs' \<and>
          forIndices (m AND NOT l)
            (\<lambda>ch. case ch of LeafNode d' m' \<Rightarrow> None
                   | InnerNode d' m' l' c' \<Rightarrow>
                       propagateModifiedRecurs P ap keep ch (depth - 1) md) cs = Some cs')
    \<and> (if depth \<le> md then
           \<exists>node'. updateNode P ap (InnerNode d m l c') (m AND NOT l) depth = Some node'
             \<and> n' = (if \<not> keep then setModifiedAll node' 0 else node')
         else n' = InnerNode d m l c')"
proof -
  define cc where "cc =
    (if 1 = depth then
       (if \<not> keep then
          (case c of
             None \<Rightarrow> None
           | Some cs \<Rightarrow>
               map_option Some
                 (forIndices (m AND NOT l)
                    (\<lambda>ch. case ch of LeafNode d' m' \<Rightarrow> Some (LeafNode d' 0)
                           | InnerNode d' m' l' c' \<Rightarrow> None) cs))
        else Some c)
     else
       (case c of
          None \<Rightarrow> None
        | Some cs \<Rightarrow>
            map_option Some
              (forIndices (m AND NOT l)
                 (\<lambda>ch. case ch of LeafNode d' m' \<Rightarrow> None
                        | InnerNode d' m' l' c' \<Rightarrow>
                            propagateModifiedRecurs P ap keep ch (depth - 1) md) cs)))"
  from assms have "(case cc of
       None \<Rightarrow> None
     | Some c' \<Rightarrow>
         (if depth \<le> md then
            (case updateNode P ap (InnerNode d m l c') (m AND NOT l) depth of
               None \<Rightarrow> None
             | Some node' \<Rightarrow> Some (if \<not> keep then setModifiedAll node' 0 else node'))
          else Some (InnerNode d m l c'))) = Some n'"
    unfolding propagateModifiedRecurs.simps [of P ap keep "InnerNode d m l c" depth md] cc_def
    by (simp add: Let_def)
  then obtain c' where cc: "cc = Some c'"
    and r: "(if depth \<le> md then
            (case updateNode P ap (InnerNode d m l c') (m AND NOT l) depth of
               None \<Rightarrow> None
             | Some node' \<Rightarrow> Some (if \<not> keep then setModifiedAll node' 0 else node'))
          else Some (InnerNode d m l c')) = Some n'"
    by (cases cc) auto
  from cc have "if 1 = depth then
       (if keep then c' = c
        else \<exists>cs cs'. c = Some cs \<and> c' = Some cs' \<and>
          forIndices (m AND NOT l)
            (\<lambda>ch. case ch of LeafNode d' m' \<Rightarrow> Some (LeafNode d' 0)
                   | InnerNode d' m' l' c' \<Rightarrow> None) cs = Some cs')
     else \<exists>cs cs'. c = Some cs \<and> c' = Some cs' \<and>
          forIndices (m AND NOT l)
            (\<lambda>ch. case ch of LeafNode d' m' \<Rightarrow> None
                   | InnerNode d' m' l' c' \<Rightarrow>
                       propagateModifiedRecurs P ap keep ch (depth - 1) md) cs = Some cs'"
    unfolding cc_def by (auto split: if_splits option.splits)
  moreover from r have "if depth \<le> md then
           \<exists>node'. updateNode P ap (InnerNode d m l c') (m AND NOT l) depth = Some node'
             \<and> n' = (if \<not> keep then setModifiedAll node' 0 else node')
         else n' = InnerNode d m l c'"
    by (auto split: if_splits option.splits)
  ultimately show ?thesis by blast
qed

lemma leafReset_inv:
  assumes "inv_node b (InnerNode d m l (Some cs)) depth"
    and "forIndices ind (\<lambda>ch. case ch of LeafNode d' m' \<Rightarrow> Some (LeafNode d' 0)
                            | InnerNode d' m' l' c' \<Rightarrow> None) cs = Some cs'"
  shows "inv_node b (InnerNode d m' l (Some cs')) depth"
  using assms
proof (rule inv_children_update)
  fix i
  assume "(case cs ! i of LeafNode d' m' \<Rightarrow> Some (LeafNode d' 0)
           | InnerNode d' m' l' c' \<Rightarrow> None) = Some (cs' ! i)"
  then obtain d' m' where "cs ! i = LeafNode d' m'" "cs' ! i = LeafNode d' 0"
    by (cases "cs ! i") auto
  moreover assume "inv_node (b \<and> \<not> bit l i) (cs ! i) (depth - 1)"
  ultimately show "inv_node (b \<and> \<not> bit l i) (cs' ! i) (depth - 1)" by simp
qed

lemma leafReset_total:
  assumes "inv_node b (InnerNode d m l (Some cs)) 1"
  shows "\<exists>cs'. forIndices ind (\<lambda>ch. case ch of LeafNode d' m' \<Rightarrow> Some (LeafNode d' 0)
                            | InnerNode d' m' l' c' \<Rightarrow> None) cs = Some cs'"
proof (rule forIndices_Some_ex)
  fix i
  assume "i < length cs"
  with assms have "inv_node (b \<and> \<not> bit l i) (cs ! i) 0" by (simp add: inv_InnerNode)
  from inv_kind(1) [OF this] obtain d' m' where "cs ! i = LeafNode d' m'" by auto
  then show "\<exists>c'. (case cs ! i of LeafNode d' m' \<Rightarrow> Some (LeafNode d' 0)
                    | InnerNode d' m' l' c' \<Rightarrow> None) = Some c'" by simp
qed

lemma recurs_children_inv:
  assumes inv: "inv_node b (InnerNode d m l (Some cs)) depth"
    and f: "forIndices ind (\<lambda>ch. case ch of LeafNode d' m' \<Rightarrow> None
                            | InnerNode d' m' l' c' \<Rightarrow> rec ch) cs = Some cs'"
    and H: "\<And>i. i < 8 \<Longrightarrow> bit ind i \<Longrightarrow> rec (cs ! i) = Some (cs' ! i)
              \<Longrightarrow> inv_node (b \<and> \<not> bit l i) (cs ! i) (depth - 1)
              \<Longrightarrow> inv_node (b \<and> \<not> bit l i) (cs' ! i) (depth - 1)"
  shows "inv_node b (InnerNode d m' l (Some cs')) depth"
  using inv f
proof (rule inv_children_update)
  fix i
  assume i: "i < 8" "bit ind i"
    and g: "(case cs ! i of LeafNode d' m' \<Rightarrow> None
             | InnerNode d' m' l' c' \<Rightarrow> rec (cs ! i)) = Some (cs' ! i)"
    and ci: "inv_node (b \<and> \<not> bit l i) (cs ! i) (depth - 1)"
  from g have "rec (cs ! i) = Some (cs' ! i)" by (cases "cs ! i") auto
  from H [OF i this ci] show "inv_node (b \<and> \<not> bit l i) (cs' ! i) (depth - 1)" .
qed

lemma recurs_children_total:
  assumes wf: "wf_node (InnerNode d m l c) depth" and d1: "depth \<noteq> 1"
    and ne: "ind AND NOT l \<noteq> 0"
    and H: "\<And>i cs. c = Some cs \<Longrightarrow> i < 8 \<Longrightarrow> bit (ind AND NOT l) i
              \<Longrightarrow> wf_node (cs ! i) (depth - 1) \<Longrightarrow> \<exists>ch'. rec (cs ! i) = Some ch'"
  shows "\<exists>cs cs'. c = Some cs \<and>
           forIndices (ind AND NOT l) (\<lambda>ch. case ch of LeafNode d' m' \<Rightarrow> None
                            | InnerNode d' m' l' c' \<Rightarrow> rec ch) cs = Some cs'"
proof -
  from wf_new_leaf_children [OF wf ne] obtain cs where
    cs: "c = Some cs" "length cs = 8"
      "\<And>i. i < 8 \<Longrightarrow> bit (ind AND NOT l) i \<Longrightarrow> wf_node (cs ! i) (depth - 1)" by blast
  have "\<exists>cs'. forIndices (ind AND NOT l) (\<lambda>ch. case ch of LeafNode d' m' \<Rightarrow> None
                            | InnerNode d' m' l' c' \<Rightarrow> rec ch) cs = Some cs'"
  proof (rule forIndices_Some_ex)
    fix i
    assume i: "i < length cs" "bit (ind AND NOT l) i"
    with cs have w: "wf_node (cs ! i) (depth - 1)" by simp
    from d1 have "depth - 1 \<noteq> 0" by auto
    from wf_kind(2) [OF w this] obtain d' m' l' c' where ch: "cs ! i = InnerNode d' m' l' c'"
      by auto
    from H [OF cs(1) _ i(2) w] i(1) cs(2) obtain ch' where "rec (cs ! i) = Some ch'" by auto
    then show "\<exists>c'. (case cs ! i of LeafNode d' m' \<Rightarrow> None
                      | InnerNode d' m' l' c' \<Rightarrow> rec (cs ! i)) = Some c'" by (simp add: ch)
  qed
  with cs(1) show ?thesis by blast
qed

lemma propagateModifiedRecurs_inv:
  assumes "inv_node b n depth" and "propagateModifiedRecurs P ap keep n depth md = Some n'"
  shows "inv_node b n' depth"
  using assms
proof (induction P ap keep n depth md arbitrary: b n' rule: propagateModifiedRecurs.induct)
  case (1 P ap keep node depth md)
  show ?case
  proof (cases node)
    case (LeafNode d m)
    with 1(3) show ?thesis by (subst (asm) propagateModifiedRecurs.simps) simp
  next
    case (InnerNode d m l c)
    show ?thesis
    proof (cases "m AND NOT l = 0")
      case True
      with 1(3) InnerNode have "n' = InnerNode d 0 l c \<or> n' = node"
        by (subst (asm) propagateModifiedRecurs.simps) (auto simp add: Let_def split: if_splits)
      with 1(2) InnerNode inv_modified [of b d m l c depth 0] show ?thesis by auto
    next
      case False
      from propagateModifiedRecurs_children [OF 1(3) [unfolded InnerNode] False] obtain c' where
        c': "if 1 = depth then
               (if keep then c' = c
                else \<exists>cs cs'. c = Some cs \<and> c' = Some cs' \<and>
                  forIndices (m AND NOT l)
                    (\<lambda>ch. case ch of LeafNode d' m' \<Rightarrow> Some (LeafNode d' 0)
                           | InnerNode d' m' l' c' \<Rightarrow> None) cs = Some cs')
             else \<exists>cs cs'. c = Some cs \<and> c' = Some cs' \<and>
                  forIndices (m AND NOT l)
                    (\<lambda>ch. case ch of LeafNode d' m' \<Rightarrow> None
                           | InnerNode d' m' l' c' \<Rightarrow>
                               propagateModifiedRecurs P ap keep ch (depth - 1) md) cs = Some cs'"
        and n': "if depth \<le> md then
                   \<exists>node'. updateNode P ap (InnerNode d m l c') (m AND NOT l) depth = Some node'
                     \<and> n' = (if \<not> keep then setModifiedAll node' 0 else node')
                 else n' = InnerNode d m l c'"
        by blast
      have inv': "inv_node b (InnerNode d m l c') depth"
      proof (cases "1 = depth")
        case True
        show ?thesis
        proof (cases keep)
          case True
          with c' \<open>1 = depth\<close> 1(2) InnerNode show ?thesis by simp
        next
          case False
          with c' True obtain cs cs' where c: "c = Some cs" "c' = Some cs'"
            and f: "forIndices (m AND NOT l)
                    (\<lambda>ch. case ch of LeafNode d' m' \<Rightarrow> Some (LeafNode d' 0)
                           | InnerNode d' m' l' c' \<Rightarrow> None) cs = Some cs'" by auto
          show ?thesis unfolding c(2) using 1(2) [unfolded InnerNode c(1)] f
            by (rule leafReset_inv)
        qed
      next
        case d1: False
        with c' obtain cs cs' where c: "c = Some cs" "c' = Some cs'"
          and f: "forIndices (m AND NOT l)
                    (\<lambda>ch. case ch of LeafNode d' m' \<Rightarrow> None
                           | InnerNode d' m' l' c' \<Rightarrow>
                               propagateModifiedRecurs P ap keep ch (depth - 1) md) cs = Some cs'"
          by auto
        show ?thesis unfolding c(2) using 1(2) [unfolded InnerNode c(1)] f
        proof (rule recurs_children_inv)
          fix i
          assume r: "propagateModifiedRecurs P ap keep (cs ! i) (depth - 1) md = Some (cs' ! i)"
            and ci: "inv_node (b \<and> \<not> bit l i) (cs ! i) (depth - 1)"
          from d1 have "depth - 1 \<noteq> 0" by auto
          from inv_kind(2) [OF ci this] obtain d' m' l' c'' where ch: "cs ! i = InnerNode d' m' l' c''"
            by auto
          from 1(1) [OF InnerNode refl False d1 c(1) ch ci r]
          show "inv_node (b \<and> \<not> bit l i) (cs' ! i) (depth - 1)" .
        qed
      qed
      show ?thesis
      proof (cases "depth \<le> md")
        case True
        with n' obtain node' where u: "updateNode P ap (InnerNode d m l c') (m AND NOT l) depth = Some node'"
          and e: "n' = (if \<not> keep then setModifiedAll node' 0 else node')" by auto
        from inv' u have "inv_node b node' depth" by (rule updateNode_inv)
        then show ?thesis by (simp add: e)
      next
        case False
        with n' inv' show ?thesis by simp
      qed
    qed
  qed
qed

lemma propagateModifiedRecurs_total:
  assumes "wf_node n depth" and "depth \<noteq> 0"
  shows "\<exists>n'. propagateModifiedRecurs P ap keep n depth md = Some n'"
  using assms
proof (induction P ap keep n depth md rule: propagateModifiedRecurs.induct)
  case (1 P ap keep node depth md)
  from wf_kind(2) [OF 1(2,3)] obtain d m l c where n: "node = InnerNode d m l c" by auto
  let ?gl = "\<lambda>ch. case ch of LeafNode d' m' \<Rightarrow> Some (LeafNode d' 0)
                   | InnerNode d' m' l' c' \<Rightarrow> None"
  let ?gr = "\<lambda>ch. case ch of LeafNode d' m' \<Rightarrow> None
                   | InnerNode d' m' l' c' \<Rightarrow>
                       propagateModifiedRecurs P ap keep ch (depth - 1) md"
  show ?case
  proof (cases "m AND NOT l = 0")
    case True
    then show ?thesis by (subst propagateModifiedRecurs.simps) (simp add: n)
  next
    case False
    have "\<exists>c'. (if 1 = depth then
            (if \<not> keep then
               (case c of None \<Rightarrow> None | Some cs \<Rightarrow> map_option Some (forIndices (m AND NOT l) ?gl cs))
             else Some c)
          else (case c of None \<Rightarrow> None | Some cs \<Rightarrow> map_option Some (forIndices (m AND NOT l) ?gr cs)))
        = Some c' \<and> wf_node (InnerNode d m l c') depth"
    proof (cases "1 = depth")
      case True
      show ?thesis
      proof (cases keep)
        case True
        with \<open>1 = depth\<close> 1(2) n show ?thesis by simp
      next
        case False
        from wf_new_leaf_children [OF 1(2) [unfolded n] \<open>m AND NOT l \<noteq> 0\<close>] obtain cs where
          cs: "c = Some cs" by blast
        from 1(2) n cs True have i1: "inv_node True (InnerNode d m l (Some cs)) 1" by simp
        from leafReset_total [OF i1] obtain cs' where
          f: "forIndices (m AND NOT l) ?gl cs = Some cs'" by blast
        from leafReset_inv [OF i1 f] have "wf_node (InnerNode d m l (Some cs')) 1" by simp
        with f False True cs show ?thesis by simp
      qed
    next
      case d1: False
      have "\<exists>cs cs'. c = Some cs \<and> forIndices (m AND NOT l) ?gr cs = Some cs'"
        using 1(2) [unfolded n] d1 [symmetric] False
      proof (rule recurs_children_total)
        fix i cs
        assume c: "c = Some cs" and w: "wf_node (cs ! i) (depth - 1)"
        from d1 have d10: "depth - 1 \<noteq> 0" by auto
        from wf_kind(2) [OF w d10] obtain d' m' l' c' where ch: "cs ! i = InnerNode d' m' l' c'"
          by auto
        from 1(1) [OF n refl False d1 c ch w d10]
        show "\<exists>ch'. propagateModifiedRecurs P ap keep (cs ! i) (depth - 1) md = Some ch'" .
      qed
      then obtain cs cs' where cs: "c = Some cs" and f: "forIndices (m AND NOT l) ?gr cs = Some cs'"
        by blast
      have "inv_node True (InnerNode d m l (Some cs')) depth"
      proof (rule recurs_children_inv [OF _ f])
        show "inv_node True (InnerNode d m l (Some cs)) depth" using 1(2) n cs by simp
      next
        fix i
        assume "propagateModifiedRecurs P ap keep (cs ! i) (depth - 1) md = Some (cs' ! i)"
          and "inv_node (True \<and> \<not> bit l i) (cs ! i) (depth - 1)"
        then show "inv_node (True \<and> \<not> bit l i) (cs' ! i) (depth - 1)"
          by (rule propagateModifiedRecurs_inv [rotated])
      qed
      with f d1 cs show ?thesis by simp
    qed
    then obtain c' where cc: "(if 1 = depth then
            (if \<not> keep then
               (case c of None \<Rightarrow> None | Some cs \<Rightarrow> map_option Some (forIndices (m AND NOT l) ?gl cs))
             else Some c)
          else (case c of None \<Rightarrow> None | Some cs \<Rightarrow> map_option Some (forIndices (m AND NOT l) ?gr cs)))
        = Some c'" and w': "wf_node (InnerNode d m l c') depth" by blast
    have "\<exists>node'. updateNode P ap (InnerNode d m l c') (m AND NOT l) depth = Some node'"
      using w' 1(3) by (rule updateNode_total) (simp add: new_leaf_bits)
    then obtain node' where "updateNode P ap (InnerNode d m l c') (m AND NOT l) depth = Some node'"
      by blast
    with cc False show ?thesis
      by (subst propagateModifiedRecurs.simps) (simp add: n Let_def)
  qed
qed

section \<open>The root slot: propagation and reset\<close>

lemma innerChild_Some:
  assumes "innerChild n i = Some ch"
  shows "\<exists>d m l cs. n = InnerNode d m l (Some cs) \<and> i < length cs \<and> ch = cs ! i"
  using assms by (cases "(n, i)" rule: innerChild.cases) (auto split: if_splits OctreeNode.splits)


lemma inv_setChild:
  assumes "inv_node b (InnerNode d m l (Some cs)) depth" and "i < 8"
    and "inv_node (b \<and> \<not> bit l i) ch' (depth - 1)"
  shows "inv_node b (setChild (InnerNode d m l (Some cs)) i ch') depth"
  using assms by (auto simp add: inv_InnerNode nth_list_update)




lemma resetModifiedRecurs_total:
  assumes "wf_node n depth" and "depth \<noteq> 0"
  shows "\<exists>n'. resetModifiedRecurs n depth md = Some n'"
  using assms
proof (induction n depth md rule: resetModifiedRecurs.induct)
  case (1 node depth md)
  from wf_kind(2) [OF 1(2,3)] obtain d m l c where n: "node = InnerNode d m l c" by auto
  let ?gl = "\<lambda>ch. case ch of LeafNode d' m' \<Rightarrow> Some (LeafNode d' 0)
                   | InnerNode d' m' l' c' \<Rightarrow> None"
  let ?gr = "\<lambda>ch. case ch of LeafNode d' m' \<Rightarrow> None
                   | InnerNode d' m' l' c' \<Rightarrow> resetModifiedRecurs ch (depth - 1) md"
  show ?case
  proof (cases "m AND NOT l = 0")
    case True
    then show ?thesis by (subst resetModifiedRecurs.simps) (simp add: n)
  next
    case False
    have "\<exists>cs cs'. c = Some cs \<and> (if 1 = depth then forIndices (- 1) ?gl cs
                 else forIndices (m AND NOT l) ?gr cs) = Some cs'"
    proof (cases "1 = depth")
      case True
      from wf_new_leaf_children [OF 1(2) [unfolded n] False] obtain cs where
        cs: "c = Some cs" by blast
      from 1(2) n cs True have "inv_node True (InnerNode d m l (Some cs)) 1" by simp
      from leafReset_total [OF this, of "- 1"] cs True show ?thesis by simp
    next
      case d1: False
      have "\<exists>cs cs'. c = Some cs \<and> forIndices (m AND NOT l) ?gr cs = Some cs'"
        using 1(2) [unfolded n] d1 [symmetric] False
      proof (rule recurs_children_total)
        fix i cs
        assume c: "c = Some cs" and w: "wf_node (cs ! i) (depth - 1)"
        from d1 have d10: "depth - 1 \<noteq> 0" by auto
        from wf_kind(2) [OF w d10] obtain d' m' l' c' where ch: "cs ! i = InnerNode d' m' l' c'"
          by auto
        from 1(1) [OF n refl False c d1 ch w d10]
        show "\<exists>ch'. resetModifiedRecurs (cs ! i) (depth - 1) md = Some ch'" .
      qed
      with d1 show ?thesis by simp
    qed
    then obtain cs cs' where "c = Some cs" "(if 1 = depth then forIndices (- 1) ?gl cs
                 else forIndices (m AND NOT l) ?gr cs) = Some cs'" by blast
    with False show ?thesis
      by (subst resetModifiedRecurs.simps) (simp add: n Let_def)
  qed
qed


lemma resetModified_node_total:
  assumes wf: "wf_node n depth" and d0: "depth \<noteq> 0" and i: "index < 8"
  shows "\<exists>n'. resetModified_node n index depth md = Some n'"
proof -
  from wf_kind(2) [OF wf d0] obtain d m l c where n: "n = InnerNode d m l c" by auto
  show ?thesis
  proof (cases "bit l index \<or> \<not> bit m index")
    case True
    then show ?thesis by (auto simp add: resetModified_node_def n)
  next
    case False
    then have nl: "\<not> bit l index" by simp
    show ?thesis
    proof (cases "1 = depth")
      case True
      from wf_leafChild [OF wf [unfolded n True [symmetric]] i nl] obtain ch where
        "leafChild (InnerNode d m l c) index = Some ch" by blast
      with False True show ?thesis by (simp add: resetModified_node_def n)
    next
      case d1: False
      from wf_innerChild [OF wf [unfolded n] i nl d1 [symmetric]] obtain ch where
        ch: "innerChild (InnerNode d m l c) index = Some ch" "wf_node ch (depth - 1)" by blast
      from d1 have "depth - 1 \<noteq> 0" by auto
      from resetModifiedRecurs_total [OF ch(2) this, of md] obtain ch' where
        "resetModifiedRecurs ch (depth - 1) md = Some ch'" by blast
      with False d1 ch(1) show ?thesis by (simp add: resetModified_node_def n)
    qed
  qed
qed

lemma propagateModified_node_total:
  assumes wf: "wf_node n depth" and d0: "depth \<noteq> 0" and i: "index < 8"
    and ml: "bit (modified n) index \<Longrightarrow> \<not> bit (leaf n) index"
  shows "\<exists>n'. propagateModified_node P ap n index depth keep md = Some n'"
proof -
  from wf_kind(2) [OF wf d0] obtain d m l c where n: "n = InnerNode d m l c" by auto
  show ?thesis
  proof (cases "bit m index")
    case False
    then show ?thesis by (simp add: propagateModified_node_def n)
  next
    case True
    with ml n have nl: "\<not> bit l index" by simp
    from wf_children [OF wf [unfolded n] i nl] obtain cs where cs: "c = Some cs" "length cs = 8"
      by blast
    have "\<exists>node1. (if 1 = depth then
         (if \<not> keep then
            (case leafChild n index of
               None \<Rightarrow> None
             | Some ch \<Rightarrow> Some (setChild n index (setModifiedAll ch 0)))
          else Some n)
       else
         (case innerChild n index of
            None \<Rightarrow> None
          | Some ch \<Rightarrow>
              (case propagateModifiedRecurs P ap keep ch (depth - 1) md of
                 None \<Rightarrow> None
               | Some ch' \<Rightarrow> Some (setChild n index ch')))) = Some node1
       \<and> wf_node node1 depth \<and> leaf node1 = l"
    proof (cases "1 = depth")
      case True
      from wf_leafChild [OF wf [unfolded n True [symmetric]] i nl] obtain ch where
        ch: "leafChild (InnerNode d m l c) index = Some ch" "wf_node ch 0" by blast
      from ch(2) nl True have "inv_node (True \<and> \<not> bit l index) (setModifiedAll ch 0) (depth - 1)"
        by auto
      from inv_setChild [OF _ i this, of d m cs] wf n cs
      have "wf_node (setChild n index (setModifiedAll ch 0)) depth" by simp
      with ch(1) True wf show ?thesis by (auto simp add: n cs(1))
    next
      case d1: False
      from wf_innerChild [OF wf [unfolded n] i nl d1 [symmetric]] obtain ch where
        ch: "innerChild (InnerNode d m l c) index = Some ch" "wf_node ch (depth - 1)" by blast
      from d1 have "depth - 1 \<noteq> 0" by auto
      from propagateModifiedRecurs_total [OF ch(2) this, of P ap keep md] obtain ch' where
        r: "propagateModifiedRecurs P ap keep ch (depth - 1) md = Some ch'" by blast
      from ch(2) r have "inv_node True ch' (depth - 1)"
        using propagateModifiedRecurs_inv [of True ch "depth - 1"] by simp
      with nl have "inv_node (True \<and> \<not> bit l index) ch' (depth - 1)" by simp
      from inv_setChild [OF _ i this, of d m cs] wf n cs
      have "wf_node (setChild n index ch') depth" by simp
      with ch(1) r d1 show ?thesis by (auto simp add: n cs(1))
    qed
    then obtain node1 where n1: "(if 1 = depth then
         (if \<not> keep then
            (case leafChild n index of
               None \<Rightarrow> None
             | Some ch \<Rightarrow> Some (setChild n index (setModifiedAll ch 0)))
          else Some n)
       else
         (case innerChild n index of
            None \<Rightarrow> None
          | Some ch \<Rightarrow>
              (case propagateModifiedRecurs P ap keep ch (depth - 1) md of
                 None \<Rightarrow> None
               | Some ch' \<Rightarrow> Some (setChild n index ch')))) = Some node1"
      and w1: "wf_node node1 depth" and l1: "leaf node1 = l" by blast
    have "\<exists>node2. updateNode P ap node1 (set_bit index 0) depth = Some node2"
      using w1 d0
    proof (rule updateNode_total)
      fix j
      assume "bit (set_bit index (0 :: IndexField)) j"
      then have "j = index" by (auto simp add: bit_simps)
      with nl l1 show "\<not> bit (leaf node1) j" by simp
    qed
    then obtain node2 where "updateNode P ap node1 (set_bit index 0) depth = Some node2" by blast
    with n1 [unfolded n] True show ?thesis
      unfolding propagateModified_node_def n by simp
  qed
qed

section \<open>Splitting a slot\<close>







section \<open>Writing: applyAllRecurs and apply\<close>




lemma innerChild_setModifiedBit [simp]: "innerChild (setModifiedBit n i b) j = innerChild n j"
  by (cases "(n, j)" rule: innerChild.cases) simp_all

lemma leafChild_setModifiedBit [simp]: "leafChild (setModifiedBit n i b) j = leafChild n j"
  by (cases "(n, j)" rule: leafChild.cases) simp_all

lemma leaf_setModifiedBit [simp]: "leaf (setModifiedBit (InnerNode d m l c) i b) = l"
  by simp




section \<open>Reachable maps are well formed\<close>


lemma wf_tree_rootDepth_nonzero: "wf_tree t \<Longrightarrow> rootDepth t \<noteq> 0"
  using wf_tree_rootDepth(1) [of t] by auto






section \<open>Live nodes\<close>




section \<open>The small map is reachable\<close>




section \<open>What propagation keeps\<close>

lemma keptModified_refl [simp]: "keptModified n n"
  by (simp add: keptModified_def)

lemma keptModified_trans: "keptModified a b \<Longrightarrow> keptModified b c \<Longrightarrow> keptModified a c"
  unfolding keptModified_def by metis

lemma liveAt_None_children: "liveAt (InnerNode d m l None) p = Some x \<longleftrightarrow> p = [] \<and> x = InnerNode d m l None"
  by (cases p) auto

lemma keptModified_children:
  assumes "\<And>i. i < length cs' \<Longrightarrow> \<not> bit l' i
             \<Longrightarrow> \<not> bit l i \<and> i < length cs \<and> keptModified (cs ! i) (cs' ! i)"
  shows "keptModified (InnerNode d m l (Some cs)) (InnerNode d' m l' (Some cs'))"
  unfolding keptModified_def
proof (intro allI impI)
  fix p x'
  assume a: "liveAt (InnerNode d' m l' (Some cs')) p = Some x'"
  show "\<exists>x. liveAt (InnerNode d m l (Some cs)) p = Some x \<and> modified x = modified x'"
  proof (cases p)
    case Nil
    with a show ?thesis by auto
  next
    case (Cons i q)
    with a have i: "i < length cs'" "\<not> bit l' i" and r: "liveAt (cs' ! i) q = Some x'"
      by (auto split: if_splits)
    from assms [OF i] r obtain x where "liveAt (cs ! i) q = Some x" "modified x = modified x'"
      and "\<not> bit l i" "i < length cs"
      unfolding keptModified_def by blast
    then show ?thesis by (simp add: Cons)
  qed
qed

lemma keptModified_null:
  "keptModified (InnerNode d m l c) (InnerNode d' m l' None)"
  unfolding keptModified_def by (auto simp add: liveAt_None_children)

lemma keptModified_data:
  assumes "keptModified (InnerNode d m l c) n'"
  shows "keptModified (InnerNode d0 m l c) n'"
  unfolding keptModified_def
proof (intro allI impI)
  fix p x'
  assume "liveAt n' p = Some x'"
  with assms obtain x where x: "liveAt (InnerNode d m l c) p = Some x" "modified x = modified x'"
    unfolding keptModified_def by blast
  show "\<exists>x. liveAt (InnerNode d0 m l c) p = Some x \<and> modified x = modified x'"
  proof (cases p)
    case Nil
    with x show ?thesis by auto
  next
    case (Cons i q)
    with x show ?thesis by (cases c) auto
  qed
qed

lemma deleteChildren_char:
  assumes "deleteChildren P ap (InnerNode d m l c) ind depth manual = Some n'"
  shows "\<exists>c'. n' = InnerNode d m (l OR ind) c'
     \<and> (\<forall>cs'. c' = Some cs' \<longrightarrow> (\<exists>cs. c = Some cs \<and> length cs' = length cs
           \<and> (\<forall>i<length cs. bit l i \<or> \<not> bit ind i \<longrightarrow> cs' ! i = cs ! i)))"
proof (cases "1 = depth")
  case True
  with assms have "deleteLeafChildren P ap (InnerNode d m l c) ind manual = Some n'"
    by (subst (asm) deleteChildren.simps) simp
  from deleteLeafChildren_char [OF this] show ?thesis by fastforce
next
  case d1: False
  show ?thesis
  proof (cases "ind AND NOT l = 0")
    case True
    with assms d1 have "n' = InnerNode d m l c"
      by (subst (asm) deleteChildren.simps) simp
    with new_leaf_zero [OF True] show ?thesis by simp
  next
    case False
    let ?g = "\<lambda>ch. case ch of
               LeafNode d' m' \<Rightarrow> None
             | InnerNode d' m' l' c' \<Rightarrow>
                 (case deleteChildren P ap ch (NOT l') (depth - 1) manual of
                    None \<Rightarrow> None
                  | Some ch' \<Rightarrow> Some (clear P ch'))"
    from assms d1 False obtain cs cs' where c: "c = Some cs"
      and f: "forIndices (ind AND NOT l) ?g cs = Some cs'"
      and n': "n' = InnerNode d m (l OR ind)
                 (if l OR ind = - 1 \<and> (manual \<or> ap) then None else Some cs')"
      by (subst (asm) deleteChildren.simps) (auto simp add: Let_def split: option.splits)
    from f have len: "length cs' = length cs" by (rule forIndices_length)
    have "cs' ! i = cs ! i" if "i < length cs" "bit l i \<or> \<not> bit ind i" for i
      using forIndices_nth(2) [OF f that(1)] that(2) by (auto simp add: new_leaf_bits)
    with c n' len show ?thesis by auto
  qed
qed

lemma deleteChildren_kept:
  assumes "deleteChildren P ap (InnerNode d m l c) ind depth manual = Some n'"
  shows "keptModified (InnerNode d m l c) n'"
proof -
  from deleteChildren_char [OF assms] obtain c' where n': "n' = InnerNode d m (l OR ind) c'"
    and cs: "\<And>cs'. c' = Some cs' \<Longrightarrow> \<exists>cs. c = Some cs \<and> length cs' = length cs
           \<and> (\<forall>i<length cs. bit l i \<or> \<not> bit ind i \<longrightarrow> cs' ! i = cs ! i)" by blast
  show ?thesis
  proof (cases c')
    case None
    then show ?thesis unfolding n' by (simp add: keptModified_null)
  next
    case (Some cs')
    from cs [OF Some] obtain cs0 where c: "c = Some cs0" "length cs' = length cs0"
      and e: "\<And>i. i < length cs0 \<Longrightarrow> bit l i \<or> \<not> bit ind i \<Longrightarrow> cs' ! i = cs0 ! i" by blast
    show ?thesis unfolding n' Some c(1)
    proof (rule keptModified_children)
      fix i
      assume "i < length cs'" "\<not> bit (l OR ind) i"
      then have "i < length cs0" "\<not> bit l i" "\<not> bit ind i" using c(2) by (simp_all add: or_bits)
      with e [of i] show "\<not> bit l i \<and> i < length cs0 \<and> keptModified (cs0 ! i) (cs' ! i)" by simp
    qed
  qed
qed

lemma updateNode_kept:
  assumes "updateNode P ap (InnerNode d m l c) ind depth = Some n'"
  shows "keptModified (InnerNode d m l c) n'"
proof -
  from assms obtain v where p: "prune P ap (InnerNode v m l c) ind depth = Some n'"
    by (auto simp add: updateNode_def split: if_splits)
  then have "n' = InnerNode v m l c
      \<or> (\<exists>ind'. deleteChildren P ap (InnerNode v m l c) ind' depth False = Some n')"
    by (auto simp add: prune_def split: option.splits if_splits)
  then have "keptModified (InnerNode v m l c) n'"
    using deleteChildren_kept by auto
  then show ?thesis by (rule keptModified_data)
qed

lemma propagateModifiedRecurs_children_keep:
  assumes "propagateModifiedRecurs P ap True (InnerNode d m l c) depth md = Some n'"
    and "m AND NOT l \<noteq> 0"
  shows "\<exists>c'.
    (if 1 = depth then c' = c
     else \<exists>cs cs'. c = Some cs \<and> c' = Some cs' \<and>
          forIndices (m AND NOT l)
            (\<lambda>ch. case ch of LeafNode d' m' \<Rightarrow> None
                   | InnerNode d' m' l' c' \<Rightarrow>
                       propagateModifiedRecurs P ap True ch (depth - 1) md) cs = Some cs')
    \<and> (if depth \<le> md then
           updateNode P ap (InnerNode d m l c') (m AND NOT l) depth = Some n'
         else n' = InnerNode d m l c')"
  using propagateModifiedRecurs_children [OF assms]
  by (cases "1 = depth"; cases "depth \<le> md") auto

lemma propagateModifiedRecurs_kept:
  assumes "propagateModifiedRecurs P ap True n depth md = Some n'"
  shows "keptModified n n'"
  using assms
proof (induction P ap "True" n depth md arbitrary: n' rule: propagateModifiedRecurs.induct)
  case (1 P ap node depth md)
  show ?case
  proof (cases node)
    case (LeafNode d m)
    with 1(2) show ?thesis by (subst (asm) propagateModifiedRecurs.simps) simp
  next
    case (InnerNode d m l c)
    show ?thesis
    proof (cases "m AND NOT l = 0")
      case True
      with 1(2) InnerNode have "n' = node"
        by (subst (asm) propagateModifiedRecurs.simps) (auto simp add: Let_def split: if_splits)
      then show ?thesis by simp
    next
      case False
      from propagateModifiedRecurs_children_keep [OF 1(2) [unfolded InnerNode] False] obtain c' where
        c': "if 1 = depth then c' = c
             else \<exists>cs cs'. c = Some cs \<and> c' = Some cs' \<and>
                  forIndices (m AND NOT l)
                    (\<lambda>ch. case ch of LeafNode d' m' \<Rightarrow> None
                           | InnerNode d' m' l' c' \<Rightarrow>
                               propagateModifiedRecurs P ap True ch (depth - 1) md) cs = Some cs'"
        and n': "if depth \<le> md then
                   updateNode P ap (InnerNode d m l c') (m AND NOT l) depth = Some n'
                 else n' = InnerNode d m l c'"
        by blast
      have k1: "keptModified (InnerNode d m l c) (InnerNode d m l c')"
      proof (cases "1 = depth")
        case True
        with c' show ?thesis by simp
      next
        case d1: False
        with c' obtain cs cs' where c: "c = Some cs" "c' = Some cs'"
          and f: "forIndices (m AND NOT l)
                    (\<lambda>ch. case ch of LeafNode d' m' \<Rightarrow> None
                           | InnerNode d' m' l' c' \<Rightarrow>
                               propagateModifiedRecurs P ap True ch (depth - 1) md) cs = Some cs'"
          by auto
        from f have len: "length cs' = length cs" by (rule forIndices_length)
        show ?thesis unfolding c
        proof (rule keptModified_children)
          fix i
          assume i: "i < length cs'" "\<not> bit l i"
          then have i': "i < length cs" using len by simp
          have "keptModified (cs ! i) (cs' ! i)"
          proof (cases "bit (m AND NOT l) i")
            case False
            from forIndices_nth(2) [OF f i' False] show ?thesis by simp
          next
            case True
            from forIndices_nth(1) [OF f i' True] obtain d' m' l' c'' where
              ch: "cs ! i = InnerNode d' m' l' c''"
              and r: "propagateModifiedRecurs P ap True (cs ! i) (depth - 1) md = Some (cs' ! i)"
              by (cases "cs ! i") auto
            from 1(1) [OF InnerNode refl \<open>m AND NOT l \<noteq> 0\<close> d1 c(1) ch r] show ?thesis .
          qed
          with i i' show "\<not> bit l i \<and> i < length cs \<and> keptModified (cs ! i) (cs' ! i)" by simp
        qed
      qed
      show ?thesis
      proof (cases "depth \<le> md")
        case True
        with n' have "updateNode P ap (InnerNode d m l c') (m AND NOT l) depth = Some n'" by simp
        from k1 updateNode_kept [OF this] show ?thesis unfolding InnerNode
          by (rule keptModified_trans)
      next
        case False
        with n' k1 show ?thesis by (simp add: InnerNode)
      qed
    qed
  qed
qed

lemma keptModified_setChild:
  assumes "i < length cs" and "keptModified (cs ! i) ch'"
  shows "keptModified (InnerNode d m l (Some cs)) (setChild (InnerNode d m l (Some cs)) i ch')"
  unfolding setChild.simps
proof (rule keptModified_children)
  fix j
  assume "j < length (cs[i := ch'])" "\<not> bit l j"
  with assms show "\<not> bit l j \<and> j < length cs \<and> keptModified (cs ! j) (cs[i := ch'] ! j)"
    by (cases "j = i") simp_all
qed

lemma propagateModified_node_kept:
  assumes "propagateModified_node P ap n index depth True md = Some n'"
  shows "keptModified n n'"
proof (cases n)
  case (LeafNode d m)
  with assms show ?thesis by (simp add: propagateModified_node_def)
next
  case (InnerNode d m l c)
  show ?thesis
  proof (cases "bit m index")
    case False
    with assms InnerNode show ?thesis by (simp add: propagateModified_node_def)
  next
    case True
    define n1 where "n1 =
      (if 1 = depth then
         (if \<not> True then
            (case leafChild (InnerNode d m l c) index of
               None \<Rightarrow> None
             | Some ch \<Rightarrow> Some (setChild (InnerNode d m l c) index (setModifiedAll ch 0)))
          else Some (InnerNode d m l c))
       else
         (case innerChild (InnerNode d m l c) index of
            None \<Rightarrow> None
          | Some ch \<Rightarrow>
              (case propagateModifiedRecurs P ap True ch (depth - 1) md of
                 None \<Rightarrow> None
               | Some ch' \<Rightarrow> Some (setChild (InnerNode d m l c) index ch'))))"
    from assms True have "(case n1 of
         None \<Rightarrow> None
       | Some node1 \<Rightarrow>
           (if depth \<le> md then
              (case updateNode P ap node1 (set_bit index 0) depth of
                 None \<Rightarrow> None
               | Some node2 \<Rightarrow> Some (if \<not> True then setModifiedBit node2 index False else node2))
            else Some node1)) = Some n'"
      unfolding propagateModified_node_def n1_def InnerNode by simp
    then obtain node1 where n1: "n1 = Some node1"
      and r0: "(if depth \<le> md then
              (case updateNode P ap node1 (set_bit index 0) depth of
                 None \<Rightarrow> None
               | Some node2 \<Rightarrow> Some (if \<not> True then setModifiedBit node2 index False else node2))
            else Some node1) = Some n'"
      by (cases n1) auto
    from r0 have r: "(if depth \<le> md then updateNode P ap node1 (set_bit index 0) depth
               else Some node1) = Some n'"
      by (cases "depth \<le> md") (auto split: option.splits)
    have k1: "keptModified (InnerNode d m l c) node1 \<and> (\<exists>d1 c1. node1 = InnerNode d1 m l c1)"
    proof (cases "1 = depth")
      case True
      with n1 have "node1 = InnerNode d m l c" by (simp add: n1_def)
      then show ?thesis by simp
    next
      case False
      with n1 obtain ch ch' where ic: "innerChild (InnerNode d m l c) index = Some ch"
        and rr: "propagateModifiedRecurs P ap True ch (depth - 1) md = Some ch'"
        and e: "node1 = setChild (InnerNode d m l c) index ch'"
        by (auto simp add: n1_def split: option.splits)
      from innerChild_Some [OF ic] obtain cs where
        cs: "c = Some cs" "index < length cs" "ch = cs ! index" by auto
      from propagateModifiedRecurs_kept [OF rr] have "keptModified (cs ! index) ch'"
        by (simp add: cs(3))
      from keptModified_setChild [OF cs(2) this] show ?thesis by (simp add: e cs(1))
    qed
    then obtain d1 c1 where node1: "node1 = InnerNode d1 m l c1" by blast
    show ?thesis
    proof (cases "depth \<le> md")
      case True
      with r have "updateNode P ap (InnerNode d1 m l c1) (set_bit index 0) depth = Some n'"
        by (simp add: node1)
      from updateNode_kept [OF this] k1 show ?thesis unfolding InnerNode node1
        using keptModified_trans by blast
    next
      case False
      with r k1 show ?thesis by (simp add: InnerNode)
    qed
  qed
qed

lemma propagateModified_returns:
  assumes "wf_tree t"
    and "bit (modified (root t)) rootIndex \<Longrightarrow> \<not> bit (leaf (root t)) rootIndex"
  shows "\<exists>t'. propagateModified P t keep md = Return t'"
proof -
  note rd = wf_tree_rootDepth [OF assms(1)]
  from rd(1) have "rootDepth t \<noteq> 0" by auto
  from propagateModified_node_total [OF rd(3) this _ assms(2), of P "automatic_prune t" keep md]
  show ?thesis by (auto simp add: propagateModified_def of_option_def rootIndex_def)
qed

section \<open>Claims about the tree\<close>

text \<open>
  Claim C1, as stated, fails: \<^verbatim>\<open>apply\<close> with a code deeper than the root does not fail with
  an error. On the map \<open>ex_t0\<close> (root depth 3) and a code of depth 5 it returns, with the
  default-constructed \<^verbatim>\<open>Node()\<close> as result and the map as it was.
\<close>

theorem apply_out_of_depth_returns_null_node:
  "rootDepth ex_t0 < Code_depth (Code_make 0 5)
     \<and> apply_code ex_P ex_t0 (Code_make 0 5) ex_set7 (map ex_set7) False
         = Return (ex_t0, Node_null)"
  by (simp add: apply_code_def rootDepth_def ex_t0_def Code_depth_def Code_make_def)

text \<open>
  Claim C1, amended. For every code whose depth exceeds the root depth, \<^verbatim>\<open>apply\<close> returns the
  null node handle without raising an error, whatever the callbacks and the propagate
  flag are, and the map is unchanged (so no callback has written to it).
\<close>

theorem apply_out_of_depth_no_write:
  assumes "rootDepth t < Code_depth code"
  shows "apply_code P t code f f2 propagate = Return (t, Node_null)"
  using assms by (simp add: apply_code_def)

theorem apply_out_of_depth_no_write_witness:
  "rootDepth ex_t0 < Code_depth (Code_make 0 5)
     \<and> apply_code ex_P ex_t0 (Code_make 0 5) ex_set7 (map ex_set7) True = Return (ex_t0, Node_null)"
proof -
  have h: "rootDepth ex_t0 < Code_depth (Code_make 0 5)"
    by (simp add: rootDepth_def ex_t0_def Code_depth_def Code_make_def)
  from h apply_out_of_depth_no_write [OF h] show ?thesis by (rule conjI)
qed






text \<open>
  Claim C8 holds of the documented behaviour and fails on the code: \<^verbatim>\<open>siblingChecked\<close> tests
  \<^verbatim>\<open>!isRoot(node)\<close> where the root is meant, so it throws "Node has no siblings" for a node
  that is not the root, here the node found for \<open>ex_code2\<close> with sibling index 1.
\<close>

theorem siblingChecked_throws_for_non_root:
  "find ex_t0 ex_code2 = Some (Node_make [] ex_code2 3)
     \<and> \<not> isRoot ex_t0 (Node_make [] ex_code2 3)
     \<and> siblingChecked ex_t0 (Node_make [] ex_code2 3) 1
         = Throw (out_of_range ''Node has no siblings'')"
  by code_simp

text \<open>
  Claim C10. \<^verbatim>\<open>propagateModified\<close> with \<^verbatim>\<open>keep_modified = true\<close> clears no modified bit, on every
  map state and for every \<^verbatim>\<open>max_depth\<close> with which it returns: every node that exists after
  the call existed before it at the same place, and has the modified bits it had (all
  eight, so a slot that was modified still is). On a well-formed map whose root slot is
  not both modified and a leaf the call returns (lemma \<open>propagateModified_returns\<close>).
\<close>

theorem propagate_keep_modified_keeps_bits:
  assumes "propagateModified P t True max_depth = Return t'"
    and "liveAt (root t') p = Some n'"
  shows "\<exists>n. liveAt (root t) p = Some n \<and> modified n = modified n'"
proof -
  from assms(1) obtain r where
    r: "propagateModified_node P (automatic_prune t) (root t) rootIndex (rootDepth t) True max_depth
          = Some r"
    and t': "t' = t\<lparr>root := r\<rparr>"
    by (auto simp add: propagateModified_def of_option_def split: option.splits)
  from propagateModified_node_kept [OF r] assms(2) show ?thesis
    unfolding keptModified_def t' by simp
qed

theorem propagate_keep_modified_keeps_bits_witness:
  "propagateModified ex_P ex_t1 True maxDepthLevels = Return ex_t2
     \<and> liveAt (root ex_t2) [0, 5]
           = Some (InnerNode ((replicate 8 0)[3 := 7]) 8 247 (Some ex_leaves))
     \<and> (\<exists>n. liveAt (root ex_t1) [0, 5] = Some n
            \<and> modified n = modified (InnerNode ((replicate 8 0)[3 := 7]) 8 247 (Some ex_leaves)))"
proof -
  have h1: "propagateModified ex_P ex_t1 True maxDepthLevels = Return ex_t2" by code_simp
  have h2: "liveAt (root ex_t2) [0, 5]
           = Some (InnerNode ((replicate 8 0)[3 := 7]) 8 247 (Some ex_leaves))" by code_simp
  from h1 h2 propagate_keep_modified_keeps_bits [OF h1 h2] show ?thesis by blast
qed

end
